theory Spec2Isabelle
  imports Main "HOL-Library.Word" "HOL-Library.Sublist"
begin

section \<open>Strings and tokens\<close>

text \<open>
  A JavaScript string is a sequence of UTF-16 code units. The regular expressions of
  \<^verbatim>\<open>latexConverter.ts\<close> carry no \<^verbatim>\<open>u\<close> flag, so they work on code units too.
  \<open>str\<close> turns an ASCII literal into such a string.
\<close>

type_synonym cu = "16 word"
type_synonym jsstring = "cu list"

definition str :: "string \<Rightarrow> jsstring" where
  "str s = map of_char s"

abbreviation DOLLAR :: cu where "DOLLAR \<equiv> 0x24"
abbreviation NEWLINE :: cu where "NEWLINE \<equiv> 0x0A"
abbreviation BACKSLASH :: cu where "BACKSLASH \<equiv> 0x5C"
abbreviation LBRACE :: cu where "LBRACE \<equiv> 0x7B"
abbreviation RBRACE :: cu where "RBRACE \<equiv> 0x7D"
abbreviation STAR :: cu where "STAR \<equiv> 0x2A"

text \<open>
  \<^verbatim>\<open>type Token = TextToken | MathToken\<close>: the tagged union of lines 8-18. The field
  \<^verbatim>\<open>id\<close> is \<open>tok_id\<close> here (\<open>id\<close> is the identity function of HOL) and
  \<^verbatim>\<open>text\<close> is \<open>tok_text\<close> (a keyword of Isabelle).
\<close>

datatype Token =
    TextToken (tok_id: jsstring) (tok_text: jsstring)
  | MathToken (tok_id: jsstring) (latex: jsstring) (displayMode: bool)
      (katexHtml: jsstring) (mathml: jsstring) (omml: jsstring)

section \<open>Accent normalizer\<close>

text \<open>
  The character classes of the pattern built in line 46: \<^verbatim>\<open>\s\<close> (white space and line
  terminators of ECMAScript) and \<^verbatim>\<open>[A-Za-z]\<close>.
\<close>

definition is_space :: "cu \<Rightarrow> bool" where
  "is_space c \<longleftrightarrow>
     c = 0x09 \<or> c = 0x0A \<or> c = 0x0B \<or> c = 0x0C \<or> c = 0x0D \<or> c = 0x20 \<or> c = 0xA0 \<or>
     c = 0x1680 \<or> (0x2000 \<le> c \<and> c \<le> 0x200A) \<or> c = 0x2028 \<or> c = 0x2029 \<or>
     c = 0x202F \<or> c = 0x205F \<or> c = 0x3000 \<or> c = 0xFEFF"

definition is_letter :: "cu \<Rightarrow> bool" where
  "is_letter c \<longleftrightarrow> (0x41 \<le> c \<and> c \<le> 0x5A) \<or> (0x61 \<le> c \<and> c \<le> 0x7A)"

text \<open>
  One attempt of the pattern \<^verbatim>\<open>\\NAME\s*\{([A-Za-z])\}\<close> (line 46) at the head of \<open>s\<close>:
  the backslash and the macro name, any white space, an opening brace, one letter and a
  closing brace. \<^verbatim>\<open>\s*\<close> is greedy, and no white space character is a brace, so the
  match is unique. The result is the captured letter and the text after the match.
\<close>

definition match_macro :: "jsstring \<Rightarrow> jsstring \<Rightarrow> (cu \<times> jsstring) option" where
  "match_macro name s =
     (if prefix (BACKSLASH # name) s then
        (case dropWhile is_space (drop (Suc (length name)) s) of
           b # l # e # rest \<Rightarrow>
             if b = LBRACE \<and> is_letter l \<and> e = RBRACE then Some (l, rest) else None
         | _ \<Rightarrow> None)
      else None)"

lemma match_macro_SomeD:
  assumes "match_macro name s = Some (l, rest)"
  shows "\<exists>ws. s = BACKSLASH # name @ ws @ LBRACE # l # RBRACE # rest \<and>
              (\<forall>c\<in>set ws. is_space c) \<and> is_letter l"
proof -
  from assms have p: "prefix (BACKSLASH # name) s"
    by (auto simp: match_macro_def split: if_splits)
  then obtain t where s: "s = (BACKSLASH # name) @ t" by (auto simp: prefix_def)
  from assms s have d: "dropWhile is_space t = LBRACE # l # RBRACE # rest" and l: "is_letter l"
    by (auto simp: match_macro_def split: if_splits list.splits)
  have "t = takeWhile is_space t @ dropWhile is_space t" by simp
  with d have "t = takeWhile is_space t @ LBRACE # l # RBRACE # rest" by simp
  moreover have "\<forall>c\<in>set (takeWhile is_space t). is_space c" by (auto dest: set_takeWhileD)
  ultimately show ?thesis using s l by (intro exI[of _ "takeWhile is_space t"]) auto
qed

lemma not_space_LBRACE: "\<not> is_space LBRACE" by (simp add: is_space_def)

lemma match_macro_SomeI:
  assumes "\<forall>c\<in>set ws. is_space c" "is_letter l"
  shows "match_macro name (BACKSLASH # name @ ws @ LBRACE # l # RBRACE # rest) = Some (l, rest)"
proof -
  have "dropWhile is_space (ws @ LBRACE # l # RBRACE # rest) = LBRACE # l # RBRACE # rest"
    using assms(1) not_space_LBRACE by (simp add: dropWhile_append3)
  then show ?thesis using assms(2) by (simp add: match_macro_def)
qed

lemma match_macro_shorter: "match_macro name s = Some (l, rest) \<Longrightarrow> length rest < length s"
  by (drule match_macro_SomeD) auto

text \<open>
  \<^verbatim>\<open>output.replace(pattern, (match, letter) => table[letter] ?? match)\<close> (line 47) with
  the \<^verbatim>\<open>g\<close> flag: scanning from the left, every match is replaced by the table entry
  of its letter, or by the matched text itself when the table has none; scanning goes
  on after the match. A character at which nothing matches is copied.
\<close>

function replace_macro :: "jsstring \<Rightarrow> (cu \<times> jsstring) list \<Rightarrow> jsstring \<Rightarrow> jsstring" where
  "replace_macro name table [] = []"
| "replace_macro name table (c # cs) =
     (case match_macro name (c # cs) of
        None \<Rightarrow> c # replace_macro name table cs
      | Some (l, rest) \<Rightarrow>
          (case map_of table l of
             Some r \<Rightarrow> r
           | None \<Rightarrow> take (length (c # cs) - length rest) (c # cs))
          @ replace_macro name table rest)"
  by pat_completeness auto
termination
  by (relation "measure (\<lambda>(name, table, s). length s)") (auto dest: match_macro_shorter)

text \<open>
  \<^verbatim>\<open>LATEX_ACCENT_MAP\<close> (lines 20-40) in the order of \<^verbatim>\<open>Object.entries\<close>. The values
  are the code units of the source file's literals; \<^verbatim>\<open>'x\u0304'\<close> is \<open>x\<close> followed
  by U+0304.
\<close>

definition LATEX_ACCENT_MAP :: "(jsstring \<times> (cu \<times> jsstring) list) list" where
  "LATEX_ACCENT_MAP =
   [(BACKSLASH # str ''hat'',
     [(of_char CHR ''A'', [0xC2]), (of_char CHR ''a'', [0xE2]), (of_char CHR ''E'', [0xCA]),
      (of_char CHR ''e'', [0xEA]), (of_char CHR ''I'', [0xCE]), (of_char CHR ''i'', [0xEE]),
      (of_char CHR ''O'', [0xD4]), (of_char CHR ''o'', [0xF4]), (of_char CHR ''U'', [0xDB]),
      (of_char CHR ''u'', [0xFB]), (of_char CHR ''Y'', [0x176]), (of_char CHR ''y'', [0x177]),
      (of_char CHR ''W'', [0x174]), (of_char CHR ''w'', [0x175]), (of_char CHR ''Z'', [0x1E90]),
      (of_char CHR ''z'', [0x1E91]), (of_char CHR ''C'', [0x108]), (of_char CHR ''c'', [0x109]),
      (of_char CHR ''G'', [0x11C]), (of_char CHR ''g'', [0x11D]), (of_char CHR ''H'', [0x124]),
      (of_char CHR ''h'', [0x125]), (of_char CHR ''S'', [0x15C]), (of_char CHR ''s'', [0x15D])]),
    (BACKSLASH # str ''bar'',
     [(of_char CHR ''A'', [0x100]), (of_char CHR ''a'', [0x101]), (of_char CHR ''E'', [0x112]),
      (of_char CHR ''e'', [0x113]), (of_char CHR ''I'', [0x12A]), (of_char CHR ''i'', [0x12B]),
      (of_char CHR ''O'', [0x14C]), (of_char CHR ''o'', [0x14D]), (of_char CHR ''U'', [0x16A]),
      (of_char CHR ''u'', [0x16B]), (of_char CHR ''Y'', [0x232]), (of_char CHR ''y'', [0x233]),
      (of_char CHR ''x'', [of_char CHR ''x'', 0x304]), (of_char CHR ''X'', [of_char CHR ''X'', 0x304])]),
    (BACKSLASH # str ''tilde'',
     [(of_char CHR ''A'', [0xC3]), (of_char CHR ''a'', [0xE3]), (of_char CHR ''N'', [0xD1]),
      (of_char CHR ''n'', [0xF1]), (of_char CHR ''O'', [0xD5]), (of_char CHR ''o'', [0xF5]),
      (of_char CHR ''I'', [0x128]), (of_char CHR ''i'', [0x129]), (of_char CHR ''U'', [0x168]),
      (of_char CHR ''u'', [0x169]), (of_char CHR ''Y'', [0x1EF8]), (of_char CHR ''y'', [0x1EF9]),
      (of_char CHR ''v'', [0x1E7D]), (of_char CHR ''V'', [0x1E7C])]),
    (BACKSLASH # str ''dot'',
     [(of_char CHR ''x'', [0x1E8B]), (of_char CHR ''X'', [0x1E8A]), (of_char CHR ''y'', [0x1E8F]),
      (of_char CHR ''Y'', [0x1E8E]), (of_char CHR ''z'', [0x17C]), (of_char CHR ''Z'', [0x17B])])]"

text \<open>
  \<^verbatim>\<open>macro.startsWith('\\') ? macro.slice(1) : macro\<close> (line 45), and the loop of
  \<^verbatim>\<open>normalizeAccentsToUnicode\<close> (lines 42-50).
\<close>

definition macroName :: "jsstring \<Rightarrow> jsstring" where
  "macroName macro = (if prefix [BACKSLASH] macro then drop 1 macro else macro)"

definition normalizeAccentsToUnicode :: "jsstring \<Rightarrow> jsstring" where
  "normalizeAccentsToUnicode input =
     foldl (\<lambda>output (macro, table). replace_macro (macroName macro) table output)
       input LATEX_ACCENT_MAP"

section \<open>Segmenter\<close>

text \<open>
  The decimal digits of a counter, as the template literals \<^verbatim>\<open>`t-${i++}`\<close> and
  \<^verbatim>\<open>`m-${i++}`\<close> print it.
\<close>

fun digit_string :: "nat \<Rightarrow> jsstring" where
  "digit_string n = (if n < 10 then [of_nat (48 + n)] else digit_string (n div 10) @ [of_nat (48 + n mod 10)])"
declare digit_string.simps [simp del]

text \<open>
  The elements of the array \<^verbatim>\<open>tokens\<close> of \<^verbatim>\<open>tokenize\<close> (line 55): type
  \<^verbatim>\<open>"text"\<close> with \<^verbatim>\<open>text\<close>, or type \<^verbatim>\<open>"latex"\<close> with \<^verbatim>\<open>latex\<close> and
  \<^verbatim>\<open>displayMode\<close>.
\<close>

datatype RawToken = RawText (raw_id: jsstring) (raw_text: jsstring)
  | RawLatex (raw_id: jsstring) (raw_latex: jsstring) (raw_displayMode: bool)

text \<open>
  \<^verbatim>\<open>const regex = /\$\$([\s\S]+?)\$\$|\$([^\n$]+?)\$/g\<close> (line 52), one attempt at the
  head of a string. First alternative: \<open>$$\<close>, then at least one code unit of any kind,
  as few as possible (\<open>block_body\<close> extends the content one unit at a time until \<open>$$\<close>
  follows), then \<open>$$\<close>. Second alternative, tried when the first fails: \<open>$\<close>, then at
  least one code unit other than newline and \<open>$\<close>, as few as possible, then \<open>$\<close>.
  \<open>match_at\<close> returns the two capture groups (one of them undefined) and the text after
  the match.
\<close>

fun block_body :: "jsstring \<Rightarrow> jsstring \<Rightarrow> (jsstring \<times> jsstring) option" where
  "block_body acc (a # b # cs) =
     (if a = DOLLAR \<and> b = DOLLAR then Some (acc, cs) else block_body (acc @ [a]) (b # cs))"
| "block_body acc _ = None"

fun match_block :: "jsstring \<Rightarrow> (jsstring \<times> jsstring) option" where
  "match_block (a # b # c # cs) =
     (if a = DOLLAR \<and> b = DOLLAR then block_body [c] cs else None)"
| "match_block _ = None"

fun inline_body :: "jsstring \<Rightarrow> jsstring \<Rightarrow> (jsstring \<times> jsstring) option" where
  "inline_body acc [] = None"
| "inline_body acc (c # cs) =
     (if c = DOLLAR then Some (acc, cs)
      else if c = NEWLINE then None
      else inline_body (acc @ [c]) cs)"

fun match_inline :: "jsstring \<Rightarrow> (jsstring \<times> jsstring) option" where
  "match_inline (a # c # cs) =
     (if a = DOLLAR \<and> c \<noteq> NEWLINE \<and> c \<noteq> DOLLAR then inline_body [c] cs else None)"
| "match_inline _ = None"

definition match_at :: "jsstring \<Rightarrow> (jsstring option \<times> jsstring option \<times> jsstring) option" where
  "match_at s =
     (case match_block s of
        Some (g1, rest) \<Rightarrow> Some (Some g1, None, rest)
      | None \<Rightarrow>
          (case match_inline s of
             Some (g2, rest) \<Rightarrow> Some (None, Some g2, rest)
           | None \<Rightarrow> None))"

text \<open>
  \<^verbatim>\<open>regex.exec(text)\<close> on the text from \<^verbatim>\<open>lastIndex\<close> on: the leftmost position with
  a match. The result is the text skipped before the match
  (\<^verbatim>\<open>text.slice(lastIndex, m.index)\<close>), the two groups and the text from the new
  \<^verbatim>\<open>lastIndex\<close> on. A failed search resets \<^verbatim>\<open>lastIndex\<close> to 0, so every call of
  \<^verbatim>\<open>tokenize\<close> starts at 0.
\<close>

fun regex_exec :: "jsstring \<Rightarrow> (jsstring \<times> jsstring option \<times> jsstring option \<times> jsstring) option" where
  "regex_exec [] = None"
| "regex_exec (c # cs) =
     (case match_at (c # cs) of
        Some (g1, g2, rest) \<Rightarrow> Some ([], g1, g2, rest)
      | None \<Rightarrow>
          (case regex_exec cs of
             None \<Rightarrow> None
           | Some (pre, g1, g2, rest) \<Rightarrow> Some (c # pre, g1, g2, rest)))"

lemma block_body_shorter: "block_body acc s = Some (x, rest) \<Longrightarrow> length rest < length s"
  by (induction acc s rule: block_body.induct) (auto split: if_splits)

lemma inline_body_shorter: "inline_body acc s = Some (x, rest) \<Longrightarrow> length rest < length s"
  by (induction acc s rule: inline_body.induct) (auto split: if_splits)

lemma match_at_shorter: "match_at s = Some (g1, g2, rest) \<Longrightarrow> length rest < length s"
  unfolding match_at_def
  by (cases s rule: match_block.cases)
     (auto split: option.splits if_splits dest!: block_body_shorter inline_body_shorter
        elim: match_inline.elims)

lemma regex_exec_shorter: "regex_exec s = Some (pre, g1, g2, rest) \<Longrightarrow> length rest < length s"
proof (induction s arbitrary: pre)
  case Nil then show ?case by simp
next
  case (Cons c cs)
  show ?case
  proof (cases "match_at (c # cs)")
    case None
    with Cons.prems obtain pre' where "regex_exec cs = Some (pre', g1, g2, rest)"
      by (auto split: option.splits)
    from Cons.IH[OF this] show ?thesis by simp
  next
    case (Some r)
    with Cons.prems have "match_at (c # cs) = Some (g1, g2, rest)"
      by (auto split: option.splits)
    then show ?thesis by (rule match_at_shorter)
  qed
qed

text \<open>
  The loop of \<^verbatim>\<open>tokenize\<close> (lines 56-71). \<open>s\<close> is the text from \<^verbatim>\<open>lastIndex\<close> on,
  \<open>i\<close> the counter, \<open>tokens\<close> the array built so far. \<^verbatim>\<open>m.index > lastIndex\<close> says
  that the skipped text is not empty, \<^verbatim>\<open>lastIndex < text.length\<close> that the rest is not.
\<close>

function tokenize_loop :: "jsstring \<Rightarrow> nat \<Rightarrow> RawToken list \<Rightarrow> RawToken list" where
  "tokenize_loop s i tokens =
     (case regex_exec s of
        None \<Rightarrow>
          (if s \<noteq> [] then tokens @ [RawText (str ''t-'' @ digit_string i) s] else tokens)
      | Some (pre, g1, g2, rest) \<Rightarrow>
          (let tokens1 = (if pre \<noteq> [] then tokens @ [RawText (str ''t-'' @ digit_string i) pre] else tokens);
               i1 = (if pre \<noteq> [] then i + 1 else i);
               isBlock = (case g1 of Some x \<Rightarrow> x \<noteq> [] | None \<Rightarrow> False);
               content = (case g1 of Some x \<Rightarrow> x | None \<Rightarrow> (case g2 of Some y \<Rightarrow> y | None \<Rightarrow> []))
           in tokenize_loop rest (i1 + 1)
                (tokens1 @ [RawLatex (str ''m-'' @ digit_string i1) content isBlock])))"
  by pat_completeness auto
termination
  by (relation "measure (\<lambda>(s, i, tokens). length s)") (auto dest: regex_exec_shorter)

declare tokenize_loop.simps [simp del]

definition tokenize :: "jsstring \<Rightarrow> RawToken list" where
  "tokenize s = tokenize_loop s 0 []"

text \<open>
  The external renderers called by \<^verbatim>\<open>convertLatexToken\<close> (lines 74-79): KaTeX and
  Temml, each given the LaTeX source and \<^verbatim>\<open>displayMode\<close>, and \<^verbatim>\<open>mml2omml\<close>. They
  are parameters of the model.
\<close>

record libs =
  katex_renderToString :: "jsstring \<Rightarrow> bool \<Rightarrow> jsstring"
  temml_renderToString :: "jsstring \<Rightarrow> bool \<Rightarrow> jsstring"
  mml2omml :: "jsstring \<Rightarrow> jsstring"

definition convertLatexToken :: "libs \<Rightarrow> jsstring \<Rightarrow> bool \<Rightarrow> jsstring \<times> jsstring \<times> jsstring" where
  "convertLatexToken L ltx dm =
     (let katexHtml = katex_renderToString L ltx dm;
          mathml = temml_renderToString L ltx dm;
          omml = mml2omml L mathml
      in (katexHtml, mathml, omml))"

text \<open>
  \<^verbatim>\<open>tokenizeAndConvert\<close> (lines 81-100): the callback of \<^verbatim>\<open>raw.map\<close>, which
  normalizes the LaTeX of a math token once more, and the function itself.
\<close>

definition convert_raw :: "libs \<Rightarrow> RawToken \<Rightarrow> Token" where
  "convert_raw L t =
     (case t of
        RawText i x \<Rightarrow> TextToken i x
      | RawLatex i l dm \<Rightarrow>
          (let ltx = normalizeAccentsToUnicode l;
               (katexHtml, mathml, omml) = convertLatexToken L ltx dm
           in MathToken i ltx dm katexHtml mathml omml))"

definition tokenizeAndConvert :: "libs \<Rightarrow> jsstring \<Rightarrow> Token list" where
  "tokenizeAndConvert L input =
     (let normalized = normalizeAccentsToUnicode input;
          raw = tokenize normalized
      in map (convert_raw L) raw)"

text \<open>
  The text a token was cut from: the text of a text token, the source LaTeX of a math
  token between the delimiters of its display mode.
\<close>

definition delimiter :: "bool \<Rightarrow> jsstring" where
  "delimiter dm = (if dm then [DOLLAR, DOLLAR] else [DOLLAR])"

definition token_source :: "Token \<Rightarrow> jsstring" where
  "token_source t =
     (case t of
        TextToken _ x \<Rightarrow> x
      | MathToken _ l dm _ _ _ \<Rightarrow> delimiter dm @ l @ delimiter dm)"

text \<open>
  A stand-in for the external renderers (KaTeX, Temml, mathml2omml), used where a
  closed example needs one: each returns its input.
\<close>

definition sample_libs :: libs where
  "sample_libs = \<lparr>katex_renderToString = (\<lambda>l dm. l), temml_renderToString = (\<lambda>l dm. l),
      mml2omml = (\<lambda>m. m)\<rparr>"

text \<open>Does a raw token list hold a math token with this source and display mode?\<close>

definition yields_math :: "RawToken list \<Rightarrow> jsstring \<Rightarrow> bool \<Rightarrow> bool" where
  "yields_math tokens X dm =
     list_ex (\<lambda>t. case t of RawLatex _ l d \<Rightarrow> l = X \<and> d = dm | RawText _ _ \<Rightarrow> False) tokens"

text \<open>The result of \<open>regex_exec\<close> after skipping a stretch of text without a match.\<close>

definition prepend :: "jsstring \<Rightarrow> (jsstring \<times> jsstring option \<times> jsstring option \<times> jsstring) option
    \<Rightarrow> (jsstring \<times> jsstring option \<times> jsstring option \<times> jsstring) option" where
  "prepend a r = (case r of None \<Rightarrow> None | Some (p, g1, g2, rest) \<Rightarrow> Some (a @ p, g1, g2, rest))"

section \<open>Markdown weaver and document builder: the combined string\<close>

text \<open>\<^verbatim>\<open>const mathPlaceholder = (id: string) => `MATHPH${id}PHMATH`\<close> (line 102).\<close>

definition mathPlaceholder :: "jsstring \<Rightarrow> jsstring" where
  "mathPlaceholder i = str ''MATHPH'' @ i @ str ''PHMATH''"

text \<open>
  The combined string of \<^verbatim>\<open>renderMarkdownWithPlaceholders\<close> (lines 108-114): the
  callback of \<^verbatim>\<open>map\<close>, then \<^verbatim>\<open>join("")\<close>.
\<close>

definition weaver_piece :: "Token \<Rightarrow> jsstring" where
  "weaver_piece t =
     (case t of
        TextToken _ x \<Rightarrow> x
      | MathToken i _ dm _ _ _ \<Rightarrow>
          (let ph = mathPlaceholder i
           in if dm then [NEWLINE, NEWLINE] @ ph @ [NEWLINE, NEWLINE] else ph))"

definition weaver_combined :: "Token list \<Rightarrow> jsstring" where
  "weaver_combined tokens = concat (map weaver_piece tokens)"

text \<open>
  The combined string of \<^verbatim>\<open>generateDocx\<close> (lines 160-162), written there as one
  nested conditional expression.
\<close>

definition docx_piece :: "Token \<Rightarrow> jsstring" where
  "docx_piece t =
     (if is_TextToken t then tok_text t
      else if displayMode t
        then [NEWLINE, NEWLINE] @ mathPlaceholder (tok_id t) @ [NEWLINE, NEWLINE]
        else mathPlaceholder (tok_id t))"

definition docx_combined :: "Token list \<Rightarrow> jsstring" where
  "docx_combined tokens = concat (map docx_piece tokens)"

section \<open>Markdown weaver: substitution\<close>

text \<open>
  \<^verbatim>\<open>out.split(ph).join(repl)\<close> (line 121). \<^verbatim>\<open>String.prototype.split\<close> with a string
  separator cuts at the occurrences of the separator found from left to right, each
  search starting after the previous occurrence; an empty separator cuts between all
  code units. \<^verbatim>\<open>join\<close> puts the replacement between the pieces.
\<close>

function split_loop :: "jsstring \<Rightarrow> jsstring \<Rightarrow> jsstring \<Rightarrow> jsstring list" where
  "split_loop sep piece [] = [piece]"
| "split_loop sep piece (c # cs) =
     (if sep \<noteq> [] \<and> prefix sep (c # cs)
      then piece # split_loop sep [] (drop (length sep) (c # cs))
      else split_loop sep (piece @ [c]) cs)"
  by pat_completeness auto
termination
  by (relation "measure (\<lambda>(sep, piece, s). length s)") (auto simp: neq_Nil_conv)

definition js_split :: "jsstring \<Rightarrow> jsstring \<Rightarrow> jsstring list" where
  "js_split sep s = (if sep = [] then map (\<lambda>c. [c]) s else split_loop sep [] s)"

fun js_join :: "jsstring \<Rightarrow> jsstring list \<Rightarrow> jsstring" where
  "js_join sep [] = []"
| "js_join sep [x] = x"
| "js_join sep (x # y # ys) = x @ sep @ js_join sep (y # ys)"

text \<open>
  \<^verbatim>\<open>renderMarkdownWithPlaceholders\<close> (lines 104-125): the body of
  \<^verbatim>\<open>tokens.forEach\<close>, and the function. \<^verbatim>\<open>marked.parse\<close> is a parameter.
\<close>

definition substitute :: "(Token \<Rightarrow> jsstring) \<Rightarrow> jsstring \<Rightarrow> Token \<Rightarrow> jsstring" where
  "substitute replacer out t =
     (case t of
        MathToken i _ _ _ _ _ \<Rightarrow>
          (let ph = mathPlaceholder i; repl = replacer t
           in js_join repl (js_split ph out))
      | TextToken _ _ \<Rightarrow> out)"

definition renderMarkdownWithPlaceholders ::
    "(jsstring \<Rightarrow> jsstring) \<Rightarrow> Token list \<Rightarrow> (Token \<Rightarrow> jsstring) \<Rightarrow> jsstring" where
  "renderMarkdownWithPlaceholders marked_parse tokens replacer =
     (let combined = weaver_combined tokens;
          html = marked_parse combined
      in foldl (substitute replacer) html tokens)"

text \<open>
  \<^verbatim>\<open>buildPreviewHtmlFromTokens\<close> (lines 127-131) and \<^verbatim>\<open>buildWordHtmlFromTokens\<close>
  (lines 133-139); \<open>preview_replacer\<close> is the arrow function of lines 128-130, and the
  code unit \<open>0x22\<close> is the double quote.
\<close>

definition preview_replacer :: "Token \<Rightarrow> jsstring" where
  "preview_replacer t =
     (if displayMode t then str ''<div>'' @ katexHtml t @ str ''</div>''
      else str ''<span>'' @ katexHtml t @ str ''</span>'')"

definition buildPreviewHtmlFromTokens :: "(jsstring \<Rightarrow> jsstring) \<Rightarrow> Token list \<Rightarrow> jsstring" where
  "buildPreviewHtmlFromTokens marked_parse tokens =
     renderMarkdownWithPlaceholders marked_parse tokens preview_replacer"

definition buildWordHtmlFromTokens :: "(jsstring \<Rightarrow> jsstring) \<Rightarrow> Token list \<Rightarrow> jsstring" where
  "buildWordHtmlFromTokens marked_parse tokens =
     (let ns = str ''http://schemas.openxmlformats.org/officeDocument/2006/math'';
          body = renderMarkdownWithPlaceholders marked_parse tokens
            (\<lambda>t. if displayMode t then str ''<div>'' @ omml t @ str ''</div>'' else omml t)
      in str ''<!DOCTYPE html><html xmlns:m='' @ [0x22] @ ns @ [0x22] @
         str ''><head><meta charset='' @ [0x22] @ str ''UTF-8'' @ [0x22] @
         str ''></head><body>'' @ body @ str ''</body></html>'')"

text \<open>
  For closed examples: the HTML that the markdown renderer gives for one line of plain
  text, a paragraph element followed by a newline.
\<close>

definition paragraph_html :: "jsstring \<Rightarrow> jsstring" where
  "paragraph_html s = str ''<p>'' @ s @ str ''</p>'' @ [NEWLINE]"

text \<open>
  The condition on the replacer under which no placeholder survives, and the
  property itself: for all math tokens \<open>t\<close> and \<open>t'\<close> of the sequence, the output for
  \<open>t\<close> is not empty, its first and its last character do not occur in the placeholder of
  \<open>t'\<close>, and it does not contain that placeholder.
\<close>

definition replacer_ok :: "(Token \<Rightarrow> jsstring) \<Rightarrow> Token list \<Rightarrow> bool" where
  "replacer_ok replacer tokens \<longleftrightarrow>
     list_all (\<lambda>t. list_all (\<lambda>t'.
         is_TextToken t \<or> is_TextToken t' \<or>
         (replacer t \<noteq> [] \<and>
          hd (replacer t) \<notin> set (mathPlaceholder (tok_id t')) \<and>
          last (replacer t) \<notin> set (mathPlaceholder (tok_id t')) \<and>
          \<not> sublist (mathPlaceholder (tok_id t')) (replacer t))) tokens) tokens"

definition placeholder_free :: "Token list \<Rightarrow> jsstring \<Rightarrow> bool" where
  "placeholder_free tokens out \<longleftrightarrow>
     list_all (\<lambda>t. is_TextToken t \<or> \<not> sublist (mathPlaceholder (tok_id t)) out) tokens"

text \<open>
  Token sequences for closed examples: the tokens of \<open>a $x$\<close>; the formula
  \<open>text{MATHPHm-0PHMATH}\<close>, whose renderings carry the text of its own placeholder;
  and the tokens of \<open>$a$ $b$ MATHPHm-0PHMATHPHm-2PHMATH\<close>, where the text after the two
  formulas holds the placeholder of the first one and, beginning at its last four
  characters, the placeholder of the second one.
\<close>

definition sample_text :: Token where
  "sample_text = TextToken (str ''t-0'') (str ''a '')"

definition sample_math :: Token where
  "sample_math = MathToken (str ''m-1'') (str ''x'') False (str ''<i>x</i>'') (str ''<mi>x</mi>'')
     (str ''<m:r>x</m:r>'')"

definition sample_tokens :: "Token list" where
  "sample_tokens = [sample_text, sample_math]"

definition echo_tokens :: "Token list" where
  "echo_tokens =
     [MathToken (str ''m-0'') (str ''MATHPHm-0PHMATH'') False (str ''<i>MATHPHm-0PHMATH</i>'')
        (str ''<mi>MATHPHm-0PHMATH</mi>'') (str ''<m:r>MATHPHm-0PHMATH</m:r>'')]"

definition overlap_tokens :: "Token list" where
  "overlap_tokens =
     [MathToken (str ''m-0'') (str ''a'') False (str ''<i>a</i>'') (str ''<mi>a</mi>'')
        (str ''<m:r>a</m:r>''),
      TextToken (str ''t-1'') (str '' ''),
      MathToken (str ''m-2'') (str ''b'') False (str ''<i>b</i>'') (str ''<mi>b</mi>'')
        (str ''<m:r>b</m:r>''),
      TextToken (str ''t-3'') (str '' MATHPHm-0PHMATHPHm-2PHMATH'')]"

text \<open>
  A token of the markdown lexer, typed \<^verbatim>\<open>any\<close> in the source, with the fields that
  \<^verbatim>\<open>generateDocx\<close> reads: \<^verbatim>\<open>type\<close>, \<^verbatim>\<open>text\<close> (empty when undefined: every use is
  \<^verbatim>\<open>text || ''\<close>), \<^verbatim>\<open>tokens\<close> (possibly undefined), \<^verbatim>\<open>items\<close> (empty when
  undefined), \<^verbatim>\<open>ordered\<close> (false when undefined) and \<^verbatim>\<open>depth\<close> (0 when undefined:
  the use is \<^verbatim>\<open>depth || 1\<close>).
\<close>

datatype mdtok = MdTok (md_type: string) (md_text: jsstring) (md_tokens: "mdtok list option")
  (md_items: "mdtok list") (md_ordered: bool) (md_depth: nat)

text \<open>
  What \<^verbatim>\<open>generateDocx\<close> uses of the marked library: \<^verbatim>\<open>marked.lexer\<close>, and the two
  inline lexers that \<^verbatim>\<open>inlineTokensFromText\<close> probes for, \<^verbatim>\<open>Lexer.lexInline\<close> and
  \<^verbatim>\<open>new Lexer().inlineTokens\<close> (absent: \<open>None\<close>; the latter may throw, which the
  source catches: result \<open>None\<close>).
\<close>

record marked =
  lexer :: "jsstring \<Rightarrow> mdtok list"
  lexInline :: "(jsstring \<Rightarrow> mdtok list) option"
  inlineTokens :: "(jsstring \<Rightarrow> mdtok list option) option"

text \<open>
  The style argument \<^verbatim>\<open>{ bold?: boolean; italics?: boolean }\<close> (an undefined flag is
  read as false), the runs and paragraphs handed to the docx library: a
  \<^verbatim>\<open>TextRun\<close> with text and flags, the \<^verbatim>\<open>TextRun\<close> of a code line made from the bare
  string, the break run, and the math object of \<^verbatim>\<open>convertOmml2Math\<close>, kept as its
  Office markup.
\<close>

record Style =
  bold :: bool
  italics :: bool

datatype Run =
    TextRun (run_text: jsstring) (run_bold: bool) (run_italics: bool)
  | LineRun jsstring
  | BreakRun
  | MathRun jsstring

datatype HeadingLevel = HEADING_1 | HEADING_2 | HEADING_3 | HEADING_4 | HEADING_5 | HEADING_6

datatype Paragraph = Paragraph (children: "Run list") (heading: "HeadingLevel option")
  (numbering: "(string \<times> nat) option") (thematicBreak: bool)

text \<open>
  \<^verbatim>\<open>mathMap\<close> (lines 165-168): a later token with the same id overwrites an earlier one.
\<close>

definition mathMap_of :: "Token list \<Rightarrow> (jsstring \<rightharpoonup> Token)" where
  "mathMap_of tokens =
     foldl (\<lambda>m t. if \<not> is_TextToken t then m(tok_id t \<mapsto> t) else m) Map.empty tokens"

text \<open>
  \<^verbatim>\<open>/MATHPH(.+?)PHMATH/g\<close> (line 172): \<open>MATHPH\<close>, then at least one code unit that is
  no line terminator, as few as possible, then \<open>PHMATH\<close>. \<open>match_ph\<close> is one attempt at
  the head of a string, \<open>ph_exec\<close> the search of \<^verbatim>\<open>re.exec\<close> from \<^verbatim>\<open>lastIndex\<close> on.
\<close>

definition is_line_terminator :: "cu \<Rightarrow> bool" where
  "is_line_terminator c \<longleftrightarrow> c = 0x0A \<or> c = 0x0D \<or> c = 0x2028 \<or> c = 0x2029"

fun ph_body :: "jsstring \<Rightarrow> jsstring \<Rightarrow> (jsstring \<times> jsstring) option" where
  "ph_body acc [] = None"
| "ph_body acc (c # cs) =
     (if prefix (str ''PHMATH'') (c # cs) then Some (acc, drop 6 (c # cs))
      else if is_line_terminator c then None
      else ph_body (acc @ [c]) cs)"

definition match_ph :: "jsstring \<Rightarrow> (jsstring \<times> jsstring) option" where
  "match_ph s =
     (if prefix (str ''MATHPH'') s then
        (case drop 6 s of
           [] \<Rightarrow> None
         | c # cs \<Rightarrow> if is_line_terminator c then None else ph_body [c] cs)
      else None)"

fun ph_exec :: "jsstring \<Rightarrow> (jsstring \<times> jsstring \<times> jsstring) option" where
  "ph_exec [] = None"
| "ph_exec (c # cs) =
     (case match_ph (c # cs) of
        Some (i, rest) \<Rightarrow> Some ([], i, rest)
      | None \<Rightarrow>
          (case ph_exec cs of
             None \<Rightarrow> None
           | Some (pre, i, rest) \<Rightarrow> Some (c # pre, i, rest)))"

lemma ph_body_SomeD:
  "ph_body acc s = Some (i, rest) \<Longrightarrow> \<exists>y. i = acc @ y \<and> s = y @ str ''PHMATH'' @ rest"
proof (induction acc s rule: ph_body.induct)
  case (1 acc)
  then show ?case by simp
next
  case (2 acc c cs)
  show ?case
  proof (cases "prefix (str ''PHMATH'') (c # cs)")
    case True
    then obtain t where t: "c # cs = str ''PHMATH'' @ t" by (auto simp: prefix_def)
    have "length (str ''PHMATH'') = 6" by (simp add: str_def)
    with t have d: "drop 6 (c # cs) = t" by (metis append_eq_conv_conj)
    from True "2.prems" have "i = acc" "rest = drop 6 (c # cs)" by auto
    with d t show ?thesis by (intro exI[of _ "[]"]) simp
  next
    case False
    with "2.prems" have lt: "\<not> is_line_terminator c" and b: "ph_body (acc @ [c]) cs = Some (i, rest)"
      by (auto split: if_splits)
    from "2.IH"[OF False lt b] obtain y where "i = (acc @ [c]) @ y" "cs = y @ str ''PHMATH'' @ rest"
      by blast
    then show ?thesis by (intro exI[of _ "c # y"]) simp
  qed
qed

lemma match_ph_SomeD:
  assumes "match_ph s = Some (i, rest)"
  shows "i \<noteq> [] \<and> s = str ''MATHPH'' @ i @ str ''PHMATH'' @ rest"
proof -
  from assms have p: "prefix (str ''MATHPH'') s" by (auto simp: match_ph_def split: if_splits)
  then obtain t where t: "s = str ''MATHPH'' @ t" by (auto simp: prefix_def)
  have "length (str ''MATHPH'') = 6" by (simp add: str_def)
  with t have d: "drop 6 s = t" by (metis append_eq_conv_conj)
  from assms p d obtain c cs where tc: "t = c # cs" and b: "ph_body [c] cs = Some (i, rest)"
    by (auto simp: match_ph_def split: list.splits if_splits)
  from ph_body_SomeD[OF b] tc t show ?thesis by auto
qed

lemma ph_exec_SomeD:
  "ph_exec s = Some (pre, i, rest) \<Longrightarrow>
   i \<noteq> [] \<and> s = pre @ str ''MATHPH'' @ i @ str ''PHMATH'' @ rest"
proof (induction s arbitrary: pre)
  case Nil then show ?case by simp
next
  case (Cons c cs)
  show ?case
  proof (cases "match_ph (c # cs)")
    case None
    with Cons.prems obtain pre' where p: "pre = c # pre'" and r: "ph_exec cs = Some (pre', i, rest)"
      by (auto split: option.splits)
    from Cons.IH[OF r] p show ?thesis by auto
  next
    case (Some a)
    with Cons.prems have "match_ph (c # cs) = Some (i, rest)" "pre = []"
      by (auto split: option.splits)
    with match_ph_SomeD[of "c # cs" i rest] show ?thesis by simp
  qed
qed

lemma ph_exec_shorter: "ph_exec s = Some (pre, i, rest) \<Longrightarrow> length rest < length s"
  by (drule ph_exec_SomeD) (simp add: str_def)

text \<open>
  \<^verbatim>\<open>splitInlineByMath\<close> (lines 170-184): the text before a match is pushed when it is
  not empty, the math token of the captured id is pushed when \<^verbatim>\<open>mathMap\<close> has one, and
  the rest of the text is pushed at the end when it is not empty.
\<close>

function split_ph_loop :: "(jsstring \<rightharpoonup> Token) \<Rightarrow> jsstring \<Rightarrow> (jsstring + Token) list
    \<Rightarrow> (jsstring + Token) list" where
  "split_ph_loop mathMap s result =
     (case ph_exec s of
        None \<Rightarrow> (if s \<noteq> [] then result @ [Inl s] else result)
      | Some (pre, i, rest) \<Rightarrow>
          split_ph_loop mathMap rest
            ((if pre \<noteq> [] then result @ [Inl pre] else result) @
             (case mathMap i of Some mt \<Rightarrow> [Inr mt] | None \<Rightarrow> [])))"
  by pat_completeness auto
termination
  by (relation "measure (\<lambda>(mathMap, s, result). length s)") (auto dest: ph_exec_shorter)

declare split_ph_loop.simps [simp del]

definition splitInlineByMath :: "(jsstring \<rightharpoonup> Token) \<Rightarrow> jsstring \<Rightarrow> (jsstring + Token) list" where
  "splitInlineByMath mathMap s = split_ph_loop mathMap s []"

text \<open>
  The matches that the loop of lines 173-180 goes through, each \<^verbatim>\<open>re.exec\<close> starting
  where the previous match ended: \<open>ph_matches\<close> lists, for every match, the text skipped
  before it and the captured id, and \<open>ph_tail\<close> is the text left after the last match.
  \<open>text_part\<close> is a push under the guards \<^verbatim>\<open>if (pre)\<close> and \<^verbatim>\<open>if (tail)\<close>.
\<close>

function ph_matches :: "jsstring \<Rightarrow> (jsstring \<times> jsstring) list" where
  "ph_matches s =
     (case ph_exec s of
        None \<Rightarrow> []
      | Some (pre, i, rest) \<Rightarrow> (pre, i) # ph_matches rest)"
  by pat_completeness auto
termination
  by (relation "measure length") (auto dest: ph_exec_shorter)

function ph_tail :: "jsstring \<Rightarrow> jsstring" where
  "ph_tail s =
     (case ph_exec s of
        None \<Rightarrow> s
      | Some (pre, i, rest) \<Rightarrow> ph_tail rest)"
  by pat_completeness auto
termination
  by (relation "measure length") (auto dest: ph_exec_shorter)

declare ph_matches.simps [simp del] ph_tail.simps [simp del]

definition text_part :: "jsstring \<Rightarrow> (jsstring + Token) list" where
  "text_part x = (if x = [] then [] else [Inl x])"

text \<open>
  \<^verbatim>\<open>emitStyledRuns\<close> (lines 188-208): \<open>**\<close> toggles bold, a single \<open>*\<close> toggles
  italics, each after flushing the buffer into a run; any other character joins the
  buffer.
\<close>

fun emit_loop :: "jsstring \<Rightarrow> jsstring \<Rightarrow> bool \<Rightarrow> bool \<Rightarrow> Run list \<Rightarrow> Run list" where
  "emit_loop [] buf b i out = (if buf \<noteq> [] then out @ [TextRun buf b i] else out)"
| "emit_loop [c] buf b i out =
     (if c = STAR then emit_loop [] [] b (\<not> i) (if buf \<noteq> [] then out @ [TextRun buf b i] else out)
      else emit_loop [] (buf @ [c]) b i out)"
| "emit_loop (c # d # cs) buf b i out =
     (if c = STAR \<and> d = STAR
        then emit_loop cs [] (\<not> b) i (if buf \<noteq> [] then out @ [TextRun buf b i] else out)
      else if c = STAR
        then emit_loop (d # cs) [] b (\<not> i) (if buf \<noteq> [] then out @ [TextRun buf b i] else out)
      else emit_loop (d # cs) (buf @ [c]) b i out)"

definition emitStyledRuns :: "jsstring \<Rightarrow> Style \<Rightarrow> Run list" where
  "emitStyledRuns s init = emit_loop s [] (bold init) (italics init) []"

text \<open>
  \<^verbatim>\<open>isOmmlPlain\<close> (line 238): no position of the markup matches
  \<^verbatim>\<open><m:(?!oMath\b|r\b|t\b|rPr\b)\w+\<close>, that is, \<open><m:\<close> followed by a word character
  but not by one of the four names ending at a word boundary.
\<close>

definition is_word :: "cu \<Rightarrow> bool" where
  "is_word c \<longleftrightarrow>
     (0x41 \<le> c \<and> c \<le> 0x5A) \<or> (0x61 \<le> c \<and> c \<le> 0x7A) \<or> (0x30 \<le> c \<and> c \<le> 0x39) \<or> c = 0x5F"

definition word_then_boundary :: "jsstring \<Rightarrow> jsstring \<Rightarrow> bool" where
  "word_then_boundary w s \<longleftrightarrow>
     prefix w s \<and> (case drop (length w) s of [] \<Rightarrow> True | d # _ \<Rightarrow> \<not> is_word d)"

definition structure_at :: "jsstring \<Rightarrow> bool" where
  "structure_at s \<longleftrightarrow>
     prefix (str ''<m:'') s \<and>
     (let t = drop 3 s
      in \<not> (word_then_boundary (str ''oMath'') t \<or> word_then_boundary (str ''r'') t \<or>
            word_then_boundary (str ''t'') t \<or> word_then_boundary (str ''rPr'') t) \<and>
         (case t of [] \<Rightarrow> False | d # _ \<Rightarrow> is_word d))"

fun structure_test :: "jsstring \<Rightarrow> bool" where
  "structure_test [] = False"
| "structure_test (c # cs) = (structure_at (c # cs) \<or> structure_test cs)"

definition isOmmlPlain :: "jsstring \<Rightarrow> bool" where
  "isOmmlPlain xml = (\<not> structure_test xml)"

text \<open>
  \<^verbatim>\<open>extractTextFromOmml\<close> (lines 239-245): the first groups of all matches of
  \<^verbatim>\<open><m:t[^>]*>([^<]*)<\/m:t>\<close>, joined. Both starred classes are greedy and stop at
  the one character that may follow them, so an attempt is deterministic.
\<close>

definition match_mt :: "jsstring \<Rightarrow> (jsstring \<times> jsstring) option" where
  "match_mt s =
     (if prefix (str ''<m:t'') s then
        (case dropWhile (\<lambda>c. c \<noteq> 0x3E) (drop 4 s) of
           [] \<Rightarrow> None
         | _ # b \<Rightarrow>
             (let content = takeWhile (\<lambda>c. c \<noteq> 0x3C) b;
                  c = dropWhile (\<lambda>c. c \<noteq> 0x3C) b
              in if prefix (str ''</m:t>'') c then Some (content, drop 6 c) else None))
      else None)"

lemma match_mt_shorter: "match_mt s = Some (x, rest) \<Longrightarrow> length rest < length s"
proof -
  assume a: "match_mt s = Some (x, rest)"
  then have p: "prefix (str ''<m:t'') s" by (auto simp: match_mt_def split: if_splits)
  then have "s \<noteq> []" by (auto simp: str_def)
  from a p obtain g b where d: "dropWhile (\<lambda>c. c \<noteq> 0x3E) (drop 4 s) = g # b"
    and r: "rest = drop 6 (dropWhile (\<lambda>c. c \<noteq> 0x3C) b)"
    by (auto simp: match_mt_def Let_def split: list.splits if_splits)
  have "length rest \<le> length b" unfolding r
    by (simp add: le_diff_conv trans_le_add1 length_dropWhile_le)
  also have "length b < length (dropWhile (\<lambda>c. c \<noteq> 0x3E) (drop 4 s))" unfolding d by simp
  also have "\<dots> \<le> length (drop 4 s)" by (rule length_dropWhile_le)
  also have "\<dots> \<le> length s" by simp
  finally show ?thesis .
qed

function extract_loop :: "jsstring \<Rightarrow> jsstring list" where
  "extract_loop [] = []"
| "extract_loop (c # cs) =
     (case match_mt (c # cs) of
        Some (content, rest) \<Rightarrow> content # extract_loop rest
      | None \<Rightarrow> extract_loop cs)"
  by pat_completeness auto
termination
  by (relation "measure length") (auto dest: match_mt_shorter)

definition extractTextFromOmml :: "jsstring \<Rightarrow> jsstring" where
  "extractTextFromOmml xml = js_join [] (extract_loop xml)"

text \<open>
  \<^verbatim>\<open>inlineTokensFromText\<close> (lines 209-227 and 294-312, the same text twice):
  \<^verbatim>\<open>Lexer.lexInline\<close> when present, else \<^verbatim>\<open>new Lexer().inlineTokens\<close> when present
  and not throwing, else the tokens of the first block of \<^verbatim>\<open>marked.lexer\<close> when it has
  a \<^verbatim>\<open>tokens\<close> array, else one text node.
\<close>

definition text_node :: "jsstring \<Rightarrow> mdtok" where
  "text_node s = MdTok ''text'' s None [] False 0"

definition inlineTokensFromText :: "marked \<Rightarrow> jsstring \<Rightarrow> mdtok list" where
  "inlineTokensFromText M s =
     (case lexInline M of
        Some f \<Rightarrow> f s
      | None \<Rightarrow>
          (case (case inlineTokens M of Some g \<Rightarrow> g s | None \<Rightarrow> None) of
             Some ts \<Rightarrow> ts
           | None \<Rightarrow>
               (case lexer M s of
                  b # _ \<Rightarrow> (case md_tokens b of Some ts \<Rightarrow> ts | None \<Rightarrow> [text_node s])
                | [] \<Rightarrow> [text_node s])))"

text \<open>
  The body of the loop over \<^verbatim>\<open>parts\<close> (lines 234-253): a string part becomes styled
  runs; a math token becomes the styled runs of its extracted text when its Office
  markup is plain (none when that text is empty), and a math object otherwise.
\<close>

definition part_runs :: "Style \<Rightarrow> jsstring + Token \<Rightarrow> Run list" where
  "part_runs style p =
     (case p of
        Inl s \<Rightarrow> (if s \<noteq> [] then emitStyledRuns s style else [])
      | Inr mt \<Rightarrow>
          (if isOmmlPlain (omml mt)
           then (let t = extractTextFromOmml (omml mt)
                 in if t \<noteq> [] then emitStyledRuns t style else [])
           else [MathRun (omml mt)]))"

text \<open>
  \<^verbatim>\<open>inlineTokensToRuns\<close> (lines 186-279): the loop over the inline tokens and the
  \<^verbatim>\<open>switch\<close> on the type of one token. A text token is lexed again; the recursion into
  that result is not structural, and with a lexer that keeps returning structured
  tokens it does not end. The model counts the depth of the recursion down from
  \<open>fuel\<close>: \<open>None\<close> says that the fuel did not suffice.
\<close>

fun inlineTokensToRuns ::
    "nat \<Rightarrow> marked \<Rightarrow> (jsstring \<rightharpoonup> Token) \<Rightarrow> mdtok list \<Rightarrow> Style \<Rightarrow> Run list option"
and inlineTokenRuns ::
    "nat \<Rightarrow> marked \<Rightarrow> (jsstring \<rightharpoonup> Token) \<Rightarrow> mdtok \<Rightarrow> Style \<Rightarrow> Run list option"
where
  "inlineTokensToRuns fuel M mathMap [] style = Some []"
| "inlineTokensToRuns fuel M mathMap (it # rest) style =
     (case inlineTokenRuns fuel M mathMap it style of
        None \<Rightarrow> None
      | Some runs \<Rightarrow>
          (case inlineTokensToRuns fuel M mathMap rest style of
             None \<Rightarrow> None
           | Some others \<Rightarrow> Some (runs @ others)))"
| "inlineTokenRuns 0 M mathMap it style = None"
| "inlineTokenRuns (Suc fuel) M mathMap it style =
     (if md_type it = ''text'' then
        (let sub = inlineTokensFromText M (md_text it)
         in if length sub = 1 \<and> md_type (hd sub) = ''text''
            then Some (concat (map (part_runs style) (splitInlineByMath mathMap (md_text (hd sub)))))
            else inlineTokensToRuns fuel M mathMap sub style)
      else if md_type it = ''strong'' then
        inlineTokensToRuns fuel M mathMap (case md_tokens it of Some ts \<Rightarrow> ts | None \<Rightarrow> [])
          (style\<lparr>bold := True\<rparr>)
      else if md_type it = ''em'' then
        inlineTokensToRuns fuel M mathMap (case md_tokens it of Some ts \<Rightarrow> ts | None \<Rightarrow> [])
          (style\<lparr>italics := True\<rparr>)
      else if md_type it = ''codespan'' then
        Some [TextRun (md_text it) (bold style) (italics style)]
      else if md_type it = ''br'' then Some [BreakRun]
      else if md_type it = ''link'' then
        inlineTokensToRuns fuel M mathMap
          (case md_tokens it of Some ts \<Rightarrow> ts | None \<Rightarrow> [text_node (md_text it)]) style
      else
        (case md_tokens it of
           Some ts \<Rightarrow> inlineTokensToRuns fuel M mathMap ts style
         | None \<Rightarrow> Some []))"

text \<open>
  \<^verbatim>\<open>headingForDepth\<close> (lines 281-290).
\<close>

definition headingForDepth :: "nat \<Rightarrow> HeadingLevel" where
  "headingForDepth d =
     (if d = 1 then HEADING_1 else if d = 2 then HEADING_2 else if d = 3 then HEADING_3
      else if d = 4 then HEADING_4 else if d = 5 then HEADING_5 else HEADING_6)"

text \<open>
  The default style \<^verbatim>\<open>{}\<close> of \<^verbatim>\<open>inlineTokensToRuns\<close>.
\<close>

definition no_style :: Style where
  "no_style = \<lparr>bold = False, italics = False\<rparr>"

text \<open>
  \<^verbatim>\<open>listParas\<close> (lines 314-327). \<open>nested_list\<close> is
  \<^verbatim>\<open>li.tokens.find((t) => t.type === 'list')\<close> under the guard of line 322: the first
  list among the tokens of an item. Every paragraph gets \<^verbatim>\<open>level: 0\<close>.
\<close>

definition nested_list :: "mdtok \<Rightarrow> mdtok option" where
  "nested_list li =
     (case md_tokens li of
        None \<Rightarrow> None
      | Some ts \<Rightarrow> find (\<lambda>t. md_type t = ''list'') ts)"

lemma nested_list_size:
  "nested_list li = Some sub \<Longrightarrow> size_list size (md_items sub) < size li"
proof -
  assume a: "nested_list li = Some sub"
  then obtain ts where ts: "md_tokens li = Some ts" and f: "find (\<lambda>t. md_type t = ''list'') ts = Some sub"
    by (auto simp: nested_list_def split: option.splits)
  from f have "sub \<in> set ts" by (auto simp: find_Some_iff)
  then have "size sub \<le> size_list size ts" by (simp add: size_list_estimation')
  moreover have "size_list size (md_items sub) < size sub" by (cases sub) simp
  moreover have "size_list size ts < size li" using ts by (cases li) simp
  ultimately show ?thesis by simp
qed

function listParas ::
    "nat \<Rightarrow> marked \<Rightarrow> (jsstring \<rightharpoonup> Token) \<Rightarrow> mdtok list \<Rightarrow> bool \<Rightarrow> Paragraph list option" where
  "listParas fuel M mathMap [] ordered = Some []"
| "listParas fuel M mathMap (li # rest) ordered =
     (case inlineTokensToRuns fuel M mathMap (inlineTokensFromText M (md_text li)) no_style of
        None \<Rightarrow> None
      | Some runs \<Rightarrow>
          (case (case nested_list li of
                   Some sub \<Rightarrow> listParas fuel M mathMap (md_items sub) (md_ordered sub)
                 | None \<Rightarrow> Some []) of
             None \<Rightarrow> None
           | Some nested \<Rightarrow>
               (case listParas fuel M mathMap rest ordered of
                  None \<Rightarrow> None
                | Some others \<Rightarrow>
                    Some (Paragraph runs None
                            (Some (if ordered then ''numbered-list'' else ''bullet-list'', 0)) False
                          # nested @ others))))"
  by pat_completeness auto
termination
  by (relation "measure (\<lambda>(fuel, M, mathMap, items, ordered). size_list size items)")
     (auto dest: nested_list_size)

text \<open>
  The loop over the block tokens (lines 329-360): \<open>block_inline\<close> is
  \<^verbatim>\<open>(tk.tokens && tk.tokens.length) ? tk.tokens : inlineTokensFromText(tk.text || '')\<close>,
  \<open>blockParas\<close> the \<^verbatim>\<open>switch\<close> for one token.
\<close>

definition block_inline :: "marked \<Rightarrow> mdtok \<Rightarrow> mdtok list" where
  "block_inline M tk =
     (case md_tokens tk of
        Some (t # ts) \<Rightarrow> t # ts
      | _ \<Rightarrow> inlineTokensFromText M (md_text tk))"

definition blockParas ::
    "nat \<Rightarrow> marked \<Rightarrow> (jsstring \<rightharpoonup> Token) \<Rightarrow> mdtok \<Rightarrow> Paragraph list option" where
  "blockParas fuel M mathMap tk =
     (if md_type tk = ''heading'' then
        map_option
          (\<lambda>runs. [Paragraph runs
             (Some (headingForDepth (if md_depth tk = 0 then 1 else md_depth tk))) None False])
          (inlineTokensToRuns fuel M mathMap (block_inline M tk) no_style)
      else if md_type tk = ''paragraph'' then
        map_option (\<lambda>runs. [Paragraph runs None None False])
          (inlineTokensToRuns fuel M mathMap (block_inline M tk) no_style)
      else if md_type tk = ''list'' then listParas fuel M mathMap (md_items tk) (md_ordered tk)
      else if md_type tk = ''hr'' then Some [Paragraph [] None None True]
      else if md_type tk = ''code'' then
        Some (map (\<lambda>line. Paragraph [LineRun line] None None False)
               (js_split [NEWLINE] (md_text tk)))
      else Some [])"

fun blocksParas ::
    "nat \<Rightarrow> marked \<Rightarrow> (jsstring \<rightharpoonup> Token) \<Rightarrow> mdtok list \<Rightarrow> Paragraph list option" where
  "blocksParas fuel M mathMap [] = Some []"
| "blocksParas fuel M mathMap (tk # rest) =
     (case blockParas fuel M mathMap tk of
        None \<Rightarrow> None
      | Some ps \<Rightarrow>
          (case blocksParas fuel M mathMap rest of
             None \<Rightarrow> None
           | Some others \<Rightarrow> Some (ps @ others)))"

text \<open>
  \<^verbatim>\<open>generateDocx\<close> (lines 159-382) up to the paragraphs that become the children of
  the document's single section; \<^verbatim>\<open>Packer.toBlob\<close> of the docx library serialises them.
\<close>

definition generateDocx :: "nat \<Rightarrow> marked \<Rightarrow> Token list \<Rightarrow> Paragraph list option" where
  "generateDocx fuel M tokens =
     (let combined = docx_combined tokens;
          mdTokens = lexer M combined;
          mathMap = mathMap_of tokens
      in blocksParas fuel M mathMap mdTokens)"





text \<open>
  For closed examples: a lexer that returns its input as one paragraph of plain text;
  a list with the item \<open>a\<close> that holds an ordered list with the item \<open>b\<close>; the same
  list where the item \<open>a\<close> holds, after that list, a bullet list with the item \<open>c\<close>;
  and a math token with a fraction as Office markup, in the map of math tokens of a
  run whose text holds the placeholder of no token, \<open>MATHPHzzPHMATH\<close>.
\<close>

definition plain_marked :: marked where
  "plain_marked = \<lparr>lexer = (\<lambda>s. [MdTok ''paragraph'' s (Some [text_node s]) [] False 0]),
      lexInline = Some (\<lambda>s. [text_node s]), inlineTokens = None\<rparr>"



definition known_token :: Token where
  "known_token = MathToken (str ''m-0'') (str ''a'') False (str ''<i>a</i>'') (str ''<mi>a</mi>'')
     (str ''<m:oMath><m:f>a</m:f></m:oMath>'')"

definition known_map :: "jsstring \<rightharpoonup> Token" where
  "known_map = mathMap_of [known_token, TextToken (str ''t-1'') (str '' a MATHPHzzPHMATH b'')]"

text \<open>
  Stand-ins for the external libraries on the input \<open>**x=$1$ y**\<close>, for closed
  examples: the lexer result of marked for the combined string, and an Office markup
  with one text run.
\<close>

definition bold_marked :: marked where
  "bold_marked =
     \<lparr>lexer = (\<lambda>s. [MdTok ''paragraph'' s
                 (Some [MdTok ''strong'' (str ''x=MATHPHm-1PHMATH y'')
                          (Some [text_node (str ''x=MATHPHm-1PHMATH y'')]) [] False 0])
                 [] False 0]),
      lexInline = Some (\<lambda>s. [text_node s]), inlineTokens = None\<rparr>"

definition omml_libs :: libs where
  "omml_libs = \<lparr>katex_renderToString = (\<lambda>l dm. l), temml_renderToString = (\<lambda>l dm. l),
      mml2omml = (\<lambda>m. str ''<m:oMath><m:r><m:t>'' @ m @ str ''</m:t></m:r></m:oMath>'')\<rparr>"

section \<open>Notions used in the proofs\<close>

text \<open>
  \<open>hit\<close>: the pattern of a macro matches at the head of the string and the table has
  an entry for the letter, so that the pass of that macro replaces the match. A string
  is \<open>free\<close> of a macro when no position of it is a hit, and \<open>all_free\<close> when it is free
  of the four macros. \<open>out_ok\<close> and \<open>table_ok\<close> say that a replacement cannot take part
  in a match of the macro \<open>name'\<close>: it is not empty, holds no backslash, does not begin
  with a character of the name, with white space or with a brace, and when it begins
  with a letter, no closing brace follows that letter. \<open>pass\<close> is one round of the
  loop of the normalizer.
\<close>

definition hit :: "jsstring \<Rightarrow> (cu \<times> jsstring) list \<Rightarrow> jsstring \<Rightarrow> bool" where
  "hit name table s =
     (case match_macro name s of Some (l, rest) \<Rightarrow> map_of table l \<noteq> None | None \<Rightarrow> False)"

definition out_ok :: "jsstring \<Rightarrow> jsstring \<Rightarrow> bool" where
  "out_ok name' r \<longleftrightarrow>
     r \<noteq> [] \<and> BACKSLASH \<notin> set r \<and> hd r \<notin> set name' \<and> \<not> is_space (hd r) \<and>
     hd r \<noteq> LBRACE \<and> hd r \<noteq> RBRACE \<and>
     (is_letter (hd r) \<longrightarrow> (case tl r of [] \<Rightarrow> False | c # _ \<Rightarrow> c \<noteq> RBRACE))"

definition table_ok :: "jsstring \<Rightarrow> (cu \<times> jsstring) list \<Rightarrow> bool" where
  "table_ok name' table \<longleftrightarrow> (\<forall>(l, r)\<in>set table. out_ok name' r)"

definition free :: "jsstring \<Rightarrow> (cu \<times> jsstring) list \<Rightarrow> jsstring \<Rightarrow> bool" where
  "free name table s \<longleftrightarrow> (\<forall>t. suffix t s \<longrightarrow> \<not> hit name table t)"

definition pass :: "jsstring \<Rightarrow> jsstring \<times> (cu \<times> jsstring) list \<Rightarrow> jsstring" where
  "pass output = (\<lambda>(macro, table). replace_macro (macroName macro) table output)"

definition all_free :: "jsstring \<Rightarrow> bool" where
  "all_free s \<longleftrightarrow> (\<forall>(macro, table)\<in>set LATEX_ACCENT_MAP. free (macroName macro) table s)"

text \<open>The string that \<^verbatim>\<open>s.split(p).join(r)\<close> gives for a non-empty separator.\<close>

definition woven :: "jsstring \<Rightarrow> jsstring \<Rightarrow> jsstring \<Rightarrow> jsstring" where
  "woven p r s = js_join r (split_loop p [] s)"

section \<open>Accent normalization is idempotent\<close>

lemma takeWhile_all_none:
  "\<forall>x\<in>set a. P x \<Longrightarrow> \<forall>x\<in>set w. \<not> P x \<Longrightarrow> takeWhile P (a @ w) = a"
  by (induction a) (auto simp: takeWhile_eq_Nil_iff)

lemma split_at_first:
  assumes "\<forall>x\<in>set a. P x" "\<forall>x\<in>set a'. P x" "\<not> P b" "\<not> P b'"
      and "a @ b # t = a' @ b' # t'"
  shows "a = a' \<and> b = b' \<and> t = t'"
proof -
  have "takeWhile P (a @ b # t) = a" "takeWhile P (a' @ b' # t') = a'"
    using assms(1-4) by (simp_all add: takeWhile_tail)
  with assms(5) have "a = a'" by simp
  with assms(5) show ?thesis by simp
qed

lemma letter_facts:
  "is_letter c \<Longrightarrow> c \<noteq> BACKSLASH" "is_letter c \<Longrightarrow> c \<noteq> LBRACE"
  "is_letter c \<Longrightarrow> c \<noteq> RBRACE" "is_letter c \<Longrightarrow> \<not> is_space c"
  by (auto simp: is_letter_def is_space_def word_le_nat_alt)

lemma space_facts:
  "is_space c \<Longrightarrow> c \<noteq> BACKSLASH" "is_space c \<Longrightarrow> c \<noteq> LBRACE"
  "is_space c \<Longrightarrow> c \<noteq> RBRACE" "is_space c \<Longrightarrow> \<not> is_letter c"
  by (auto simp: is_letter_def is_space_def word_le_nat_alt)

lemma match_macro_on_match:
  assumes n: "\<forall>c\<in>set name. is_letter c" and n': "\<forall>c\<in>set name'. is_letter c"
      and ws: "\<forall>c\<in>set ws. is_space c"
      and m: "match_macro name' (BACKSLASH # name @ ws @ LBRACE # l # RBRACE # Y) = Some (l', r)"
  shows "name' = name \<and> l' = l \<and> r = Y"
proof -
  from match_macro_SomeD[OF m] obtain ws' where
    eq: "BACKSLASH # name @ ws @ LBRACE # l # RBRACE # Y =
         BACKSLASH # name' @ ws' @ LBRACE # l' # RBRACE # r"
    and ws': "\<forall>c\<in>set ws'. is_space c" by blast
  from eq have eq2: "(name @ ws) @ LBRACE # (l # RBRACE # Y) = (name' @ ws') @ LBRACE # (l' # RBRACE # r)"
    by simp
  have "name @ ws = name' @ ws' \<and> LBRACE = LBRACE \<and> l # RBRACE # Y = l' # RBRACE # r"
    using n n' ws ws'
    by (intro split_at_first[OF _ _ _ _ eq2, where P = "\<lambda>c. c \<noteq> LBRACE"])
       (auto dest: letter_facts space_facts)
  then have a: "name @ ws = name' @ ws'" and b: "l = l'" "Y = r" by simp_all
  have "takeWhile is_letter (name @ ws) = name"
    by (rule takeWhile_all_none) (use n ws in \<open>auto dest: space_facts\<close>)
  moreover have "takeWhile is_letter (name' @ ws') = name'"
    by (rule takeWhile_all_none) (use n' ws' in \<open>auto dest: space_facts\<close>)
  ultimately have "takeWhile is_letter (name @ ws) = name" "takeWhile is_letter (name' @ ws') = name'"
    by blast+
  with a have "name = name'" by simp
  with b show ?thesis by simp
qed

lemma matched_text:
  assumes "match_macro name s = Some (l, rest)"
  shows "\<exists>ws. take (length s - length rest) s = BACKSLASH # name @ ws @ [LBRACE, l, RBRACE] \<and>
              s = take (length s - length rest) s @ rest \<and> (\<forall>c\<in>set ws. is_space c) \<and> is_letter l"
proof -
  from match_macro_SomeD[OF assms] obtain ws where
    s: "s = (BACKSLASH # name @ ws @ [LBRACE, l, RBRACE]) @ rest"
    and ws: "\<forall>c\<in>set ws. is_space c" "is_letter l" by auto
  define m where "m = BACKSLASH # name @ ws @ [LBRACE, l, RBRACE]"
  from s have sm: "s = m @ rest" by (simp add: m_def)
  then have "length s - length rest = length m" by simp
  with sm have "take (length s - length rest) s = m" by simp
  with sm ws show ?thesis unfolding m_def by (intro exI[of _ ws]) simp
qed

lemma table_okD: "table_ok name' table \<Longrightarrow> map_of table l = Some r \<Longrightarrow> out_ok name' r"
  by (auto simp: table_ok_def dest: map_of_SomeD)

lemma replace_prefix:
  assumes "\<And>l r. map_of table l = Some r \<Longrightarrow> r \<noteq> [] \<and> hd r \<notin> set p"
      and "BACKSLASH \<notin> set p"
      and "replace_macro name table t = p @ q"
  shows "\<exists>t'. t = p @ t' \<and> replace_macro name table t' = q"
  using assms
proof (induction p arbitrary: t)
  case Nil
  then show ?case by simp
next
  case (Cons c p)
  from Cons.prems(3) obtain d ds where t: "t = d # ds" by (cases t) auto
  show ?case
  proof (cases "match_macro name (d # ds)")
    case None
    with Cons.prems(3) t have dc: "d = c" and r: "replace_macro name table ds = p @ q" by auto
    have "\<exists>t'. ds = p @ t' \<and> replace_macro name table t' = q"
      using Cons.prems(1,2) r by (intro Cons.IH) auto
    with dc t show ?thesis by auto
  next
    case (Some a)
    obtain l rest where a: "a = (l, rest)" by (cases a)
    from matched_text[OF Some[unfolded a]] obtain ws where
      mt: "take (length (d # ds) - length rest) (d # ds) = BACKSLASH # name @ ws @ [LBRACE, l, RBRACE]"
      by blast
    show ?thesis
    proof (cases "map_of table l")
      case None
      with Some a mt Cons.prems(3) t have "c = BACKSLASH" by simp
      with Cons.prems(2) show ?thesis by simp
    next
      case (Some r)
      from Cons.prems(1)[OF Some] have "r \<noteq> []" "hd r \<notin> set (c # p)" by auto
      moreover from Some \<open>match_macro name (d # ds) = Some a\<close> a Cons.prems(3) t
      have "r @ replace_macro name table rest = c # p @ q" by simp
      ultimately show ?thesis by (cases r) auto
    qed
  qed
qed

lemma hit_replace:
  assumes n: "\<forall>c\<in>set name. is_letter c" and n': "\<forall>c\<in>set name'. is_letter c"
      and tab: "table_ok name' table"
      and h: "hit name' table' (replace_macro name table s)"
  shows "hit name' table' s"
proof -
  from h obtain l q where m: "match_macro name' (replace_macro name table s) = Some (l, q)"
    and ml: "map_of table' l \<noteq> None"
    by (auto simp: hit_def split: option.splits)
  from match_macro_SomeD[OF m] obtain ws where
    out: "replace_macro name table s = BACKSLASH # name' @ ws @ LBRACE # l # RBRACE # q"
    and ws: "\<forall>c\<in>set ws. is_space c" and ll: "is_letter l" by blast
  from out obtain d ds where s: "s = d # ds" by (cases s) auto
  show ?thesis
  proof (cases "match_macro name (d # ds)")
    case None
    with out s have d: "d = BACKSLASH"
      and r: "replace_macro name table ds = (name' @ ws @ [LBRACE]) @ (l # RBRACE # q)" by auto
    have "\<exists>t'. ds = (name' @ ws @ [LBRACE]) @ t' \<and> replace_macro name table t' = l # RBRACE # q"
    proof (rule replace_prefix[OF _ _ r])
      fix l0 r0 assume "map_of table l0 = Some r0"
      from table_okD[OF tab this] ws show "r0 \<noteq> [] \<and> hd r0 \<notin> set (name' @ ws @ [LBRACE])"
        by (auto simp: out_ok_def)
    next
      show "BACKSLASH \<notin> set (name' @ ws @ [LBRACE])"
        using n' ws by (auto dest: letter_facts space_facts)
    qed
    then obtain t1 where ds: "ds = name' @ ws @ LBRACE # t1"
      and r1: "replace_macro name table t1 = l # RBRACE # q" by auto
    from r1 obtain e es where t1: "t1 = e # es" by (cases t1) auto
    show ?thesis
    proof (cases "match_macro name (e # es)")
      case None
      with r1 t1 have e: "e = l" and r2: "replace_macro name table es = [RBRACE] @ q" by auto
      have "\<exists>t'. es = [RBRACE] @ t' \<and> replace_macro name table t' = q"
      proof (rule replace_prefix[OF _ _ r2])
        fix l0 r0 assume "map_of table l0 = Some r0"
        from table_okD[OF tab this] show "r0 \<noteq> [] \<and> hd r0 \<notin> set [RBRACE]"
          by (auto simp: out_ok_def)
      qed simp
      then obtain t2 where "es = RBRACE # t2" by auto
      with s d ds t1 e have "s = BACKSLASH # name' @ ws @ LBRACE # l # RBRACE # t2" by simp
      with match_macro_SomeI[OF ws ll, of name' t2] ml show ?thesis by (simp add: hit_def)
    next
      case (Some a)
      obtain l1 rest1 where a: "a = (l1, rest1)" by (cases a)
      from matched_text[OF Some[unfolded a]] obtain ws1 where
        mt: "take (length (e # es) - length rest1) (e # es) = BACKSLASH # name @ ws1 @ [LBRACE, l1, RBRACE]"
        by blast
      show ?thesis
      proof (cases "map_of table l1")
        case None
        with Some a mt r1 t1 have "l = BACKSLASH" by simp
        with ll show ?thesis by (auto dest: letter_facts)
      next
        case (Some r0)
        from table_okD[OF tab this] have ok: "out_ok name' r0" .
        from Some \<open>match_macro name (e # es) = Some a\<close> a r1 t1
        have "r0 @ replace_macro name table rest1 = l # RBRACE # q" by simp
        with ok ll show ?thesis
          by (cases r0; cases "tl r0") (auto simp: out_ok_def)
      qed
    qed
  next
    case (Some a)
    obtain l0 rest0 where a: "a = (l0, rest0)" by (cases a)
    from matched_text[OF Some[unfolded a]] s obtain ws0 where
      mt: "take (length s - length rest0) s = BACKSLASH # name @ ws0 @ [LBRACE, l0, RBRACE]"
      and ss: "s = take (length s - length rest0) s @ rest0"
      and ws0: "\<forall>c\<in>set ws0. is_space c" by blast
    show ?thesis
    proof (cases "map_of table l0")
      case None
      with Some a s mt have "replace_macro name table s =
          BACKSLASH # name @ ws0 @ LBRACE # l0 # RBRACE # replace_macro name table rest0" by simp
      with m have "match_macro name'
          (BACKSLASH # name @ ws0 @ LBRACE # l0 # RBRACE # replace_macro name table rest0) = Some (l, q)"
        by simp
      from match_macro_on_match[OF n n' ws0 this] have "name' = name" "l = l0" by simp_all
      with Some a s ml show ?thesis by (simp add: hit_def)
    next
      case (Some r0)
      from table_okD[OF tab this] have ok: "out_ok name' r0" .
      from Some \<open>match_macro name (d # ds) = Some a\<close> a s out
      have "r0 @ replace_macro name table rest0 = BACKSLASH # name' @ ws @ LBRACE # l # RBRACE # q"
        by simp
      with ok show ?thesis by (cases r0) (auto simp: out_ok_def)
    qed
  qed
qed

lemma hit_Nil: "\<not> hit name table []"
  by (simp add: hit_def match_macro_def)

lemma hit_hd: "hit name table (c # cs) \<Longrightarrow> c = BACKSLASH"
  by (auto simp: hit_def match_macro_def split: if_splits)

lemma free_Nil: "free name table []"
  by (simp add: free_def hit_Nil)

lemma free_Cons: "free name table (c # cs) \<longleftrightarrow> \<not> hit name table (c # cs) \<and> free name table cs"
  by (auto simp: free_def suffix_Cons)

lemma free_suffix: "free name table s \<Longrightarrow> suffix t s \<Longrightarrow> free name table t"
  by (auto simp: free_def intro: suffix_order.trans)

lemma free_append_plain:
  "BACKSLASH \<notin> set u \<Longrightarrow> free name table x \<Longrightarrow> free name table (u @ x)"
  by (induction u) (auto simp: free_Cons dest: hit_hd)

lemma hit_append: "hit name table t \<Longrightarrow> hit name table (t @ b)"
proof -
  assume "hit name table t"
  then obtain l rest where m: "match_macro name t = Some (l, rest)" and ml: "map_of table l \<noteq> None"
    by (auto simp: hit_def split: option.splits)
  from match_macro_SomeD[OF m] obtain ws where
    t: "t = BACKSLASH # name @ ws @ LBRACE # l # RBRACE # rest"
    and ws: "\<forall>c\<in>set ws. is_space c" "is_letter l" by blast
  from t have "t @ b = BACKSLASH # name @ ws @ LBRACE # l # RBRACE # (rest @ b)" by simp
  with match_macro_SomeI[OF ws, of name "rest @ b"] ml show ?thesis by (simp add: hit_def)
qed

lemma free_sublist: "free name table (a @ x @ b) \<Longrightarrow> free name table x"
  unfolding free_def
proof (intro allI impI)
  fix t assume f: "\<forall>t. suffix t (a @ x @ b) \<longrightarrow> \<not> hit name table t" and "suffix t x"
  then obtain u where "x = u @ t" by (auto simp: suffix_def)
  then have "suffix (t @ b) (a @ x @ b)" by (simp add: suffix_def)
  with f have "\<not> hit name table (t @ b)" by blast
  then show "\<not> hit name table t" by (auto dest: hit_append)
qed

lemma free_replace:
  assumes n: "\<forall>c\<in>set name. is_letter c" and n': "\<forall>c\<in>set name'. is_letter c"
      and tab: "table_ok name' table"
  shows "(\<And>t. suffix t s \<Longrightarrow> hit name' table' t \<Longrightarrow>
            \<exists>l rest r. match_macro name t = Some (l, rest) \<and> map_of table l = Some r)
         \<Longrightarrow> free name' table' (replace_macro name table s)"
  using n tab
proof (induction name table s rule: replace_macro.induct)
  case (1 name table)
  then show ?case by (simp add: free_Nil)
next
  case (2 name table c cs)
  note Q = "2.prems"(1)
  have nohit: "(\<exists>l rest r. match_macro name (c # cs) = Some (l, rest) \<and> map_of table l = Some r) \<or>
        \<not> hit name' table' (replace_macro name table (c # cs))"
    using hit_replace[OF "2.prems"(2) n' "2.prems"(3)] Q[of "c # cs"] by blast
  show ?case
  proof (cases "match_macro name (c # cs)")
    case None
    have "free name' table' (replace_macro name table cs)"
      using "2.prems" by (intro "2.IH"(1)[OF None]) (auto simp: suffix_Cons)
    with None nohit show ?thesis by (simp add: free_Cons)
  next
    case (Some a)
    obtain l rest where a: "a = (l, rest)" by (cases a)
    from matched_text[OF Some[unfolded a]] obtain ws where
      mt: "take (length (c # cs) - length rest) (c # cs) = BACKSLASH # name @ ws @ [LBRACE, l, RBRACE]"
      and ss: "c # cs = take (length (c # cs) - length rest) (c # cs) @ rest"
      and ws: "\<forall>c\<in>set ws. is_space c" "is_letter l" by blast
    from ss have suf: "suffix rest (c # cs)" by (metis suffixI)
    have IH: "free name' table' (replace_macro name table rest)"
      using "2.prems" suf
      by (intro "2.IH"(2)[OF Some a[symmetric]]) (auto intro: suffix_order.trans)
    show ?thesis
    proof (cases "map_of table l")
      case None
      have eq: "replace_macro name table (c # cs) =
          BACKSLASH # ((name @ ws @ [LBRACE, l, RBRACE]) @ replace_macro name table rest)"
        using Some a None mt by simp
      have "BACKSLASH \<notin> set (name @ ws @ [LBRACE, l, RBRACE])"
        using "2.prems"(2) ws by (auto dest: letter_facts space_facts)
      then have fr: "free name' table' ((name @ ws @ [LBRACE, l, RBRACE]) @ replace_macro name table rest)"
        using IH by (rule free_append_plain)
      have nh: "\<not> hit name' table' (replace_macro name table (c # cs))"
        using nohit Some a None by simp
      have "free name' table'
          (BACKSLASH # ((name @ ws @ [LBRACE, l, RBRACE]) @ replace_macro name table rest))"
        using fr nh[unfolded eq] by (subst free_Cons) blast
      then show ?thesis by (simp only: eq)
    next
      case (Some r)
      from table_okD[OF "2.prems"(3) Some] have "BACKSLASH \<notin> set r" by (simp add: out_ok_def)
      then have "free name' table' (r @ replace_macro name table rest)"
        using IH by (rule free_append_plain)
      with Some \<open>match_macro name (c # cs) = Some a\<close> a show ?thesis by simp
    qed
  qed
qed

lemma free_replace_own:
  assumes "\<forall>c\<in>set name. is_letter c" "table_ok name table"
  shows "free name table (replace_macro name table s)"
  by (rule free_replace[OF assms(1) assms(1) assms(2)])
     (auto simp: hit_def split: option.splits)

lemma free_replace_other:
  assumes "\<forall>c\<in>set name. is_letter c" "\<forall>c\<in>set name'. is_letter c" "table_ok name' table"
      and "free name' table' s"
  shows "free name' table' (replace_macro name table s)"
  by (rule free_replace[OF assms(1-3)]) (use assms(4) in \<open>auto simp: free_def\<close>)

lemma replace_free_id: "free name table s \<Longrightarrow> replace_macro name table s = s"
proof (induction name table s rule: replace_macro.induct)
  case (1 name table)
  then show ?case by simp
next
  case (2 name table c cs)
  show ?case
  proof (cases "match_macro name (c # cs)")
    case None
    with 2 show ?thesis by (simp add: free_Cons)
  next
    case (Some a)
    obtain l rest where a: "a = (l, rest)" by (cases a)
    from matched_text[OF Some[unfolded a]] have
      ss: "c # cs = take (length (c # cs) - length rest) (c # cs) @ rest" by blast
    then have suf: "suffix rest (c # cs)" by (metis suffixI)
    from "2.prems" Some a have un: "map_of table l = None"
      by (auto simp: free_Cons hit_def)
    have "replace_macro name table rest = rest"
      using "2.IH"(2)[OF Some a[symmetric]] free_suffix[OF "2.prems" suf] by simp
    with Some a un ss show ?thesis by simp
  qed
qed

lemma normalize_pass: "normalizeAccentsToUnicode s = foldl pass s LATEX_ACCENT_MAP"
  by (simp add: normalizeAccentsToUnicode_def pass_def[abs_def])

lemma accent_names_letters:
  "\<forall>(macro, table)\<in>set LATEX_ACCENT_MAP. \<forall>c\<in>set (macroName macro). is_letter c"
  by (simp add: LATEX_ACCENT_MAP_def macroName_def str_def is_letter_def)

lemma accent_tables_ok:
  "\<forall>(macro, table)\<in>set LATEX_ACCENT_MAP. \<forall>(macro', table')\<in>set LATEX_ACCENT_MAP.
     table_ok (macroName macro') table"
  by (simp add: LATEX_ACCENT_MAP_def macroName_def str_def table_ok_def out_ok_def
      is_letter_def is_space_def)

lemma foldl_pass_free:
  assumes "set ps \<subseteq> set LATEX_ACCENT_MAP" "(m', t') \<in> set LATEX_ACCENT_MAP"
      and "(m', t') \<in> set ps \<or> free (macroName m') t' s"
  shows "free (macroName m') t' (foldl pass s ps)"
  using assms
proof (induction ps arbitrary: s)
  case Nil
  then show ?case by simp
next
  case (Cons p ps)
  obtain m t where p: "p = (m, t)" by (cases p)
  from Cons.prems(1) p have mem: "(m, t) \<in> set LATEX_ACCENT_MAP" by simp
  have nm: "\<forall>c\<in>set (macroName m). is_letter c" and nm': "\<forall>c\<in>set (macroName m'). is_letter c"
    using accent_names_letters mem Cons.prems(2) by auto
  have ok: "table_ok (macroName m') t" "table_ok (macroName m) t"
    using accent_tables_ok mem Cons.prems(2) by auto
  have "(m', t') \<in> set ps \<or> free (macroName m') t' (pass s p)"
  proof (cases "(m', t') = p")
    case True
    with p free_replace_own[OF nm ok(2)] show ?thesis by (simp add: pass_def)
  next
    case False
    with Cons.prems(3) consider "(m', t') \<in> set ps" | "free (macroName m') t' s" by auto
    then show ?thesis
    proof cases
      case 1 then show ?thesis by simp
    next
      case 2
      from free_replace_other[OF nm nm' ok(1) 2] p show ?thesis by (simp add: pass_def)
    qed
  qed
  with Cons.prems(1,2) have "free (macroName m') t' (foldl pass (pass s p) ps)"
    by (intro Cons.IH) auto
  then show ?case by simp
qed

lemma normalize_all_free: "all_free (normalizeAccentsToUnicode s)"
  unfolding all_free_def normalize_pass
  by (auto intro!: foldl_pass_free)

lemma foldl_pass_id:
  "\<forall>(m, t)\<in>set ps. free (macroName m) t s \<Longrightarrow> foldl pass s ps = s"
  by (induction ps) (auto simp: pass_def replace_free_id)

lemma normalize_free_id: "all_free s \<Longrightarrow> normalizeAccentsToUnicode s = s"
  unfolding all_free_def normalize_pass by (rule foldl_pass_id)

lemma all_free_sublist: "all_free (a @ x @ b) \<Longrightarrow> all_free x"
  unfolding all_free_def by (auto dest: free_sublist)

text \<open>
  C9: accent normalization is idempotent: normalizing an already normalized string
  changes nothing, for every string, over the hat/bar/tilde/dot tables of the source.
\<close>

theorem normalize_idempotent:
  "normalizeAccentsToUnicode (normalizeAccentsToUnicode s) = normalizeAccentsToUnicode s"
  by (rule normalize_free_id) (rule normalize_all_free)

lemma replace_macro_set:
  "set (replace_macro name table s) \<subseteq> set s \<union> (\<Union>(l, r)\<in>set table. set r)"
proof (induction name table s rule: replace_macro.induct)
  case (1 name table)
  then show ?case by simp
next
  case (2 name table c cs)
  show ?case
  proof (cases "match_macro name (c # cs)")
    case None
    with 2 show ?thesis by auto
  next
    case (Some a)
    obtain l rest where a: "a = (l, rest)" by (cases a)
    from matched_text[OF Some[unfolded a]] have
      ss: "c # cs = take (length (c # cs) - length rest) (c # cs) @ rest" by blast
    then have sub: "set rest \<subseteq> set (c # cs)" by (metis set_append Un_upper2)
    have tk: "set (take (length (c # cs) - length rest) (c # cs)) \<subseteq> set (c # cs)"
      by (rule set_take_subset)
    from "2.IH"(2)[OF Some a[symmetric]] sub
    have IH: "set (replace_macro name table rest) \<subseteq> set (c # cs) \<union> (\<Union>(l, r)\<in>set table. set r)"
      by blast
    show ?thesis
    proof (cases "map_of table l")
      case None
      with Some a IH tk show ?thesis by (auto simp del: take_Suc_Cons)
    next
      case (Some r)
      then have "(l, r) \<in> set table" by (rule map_of_SomeD)
      then have "set r \<subseteq> (\<Union>(l, r)\<in>set table. set r)" by auto
      with Some \<open>match_macro name (c # cs) = Some a\<close> a IH show ?thesis by auto
    qed
  qed
qed

lemma replace_macro_nonempty:
  assumes "\<forall>(l, r)\<in>set table. r \<noteq> []" "s \<noteq> []"
  shows "replace_macro name table s \<noteq> []"
proof -
  from assms(2) obtain c cs where s: "s = c # cs" by (cases s) auto
  show ?thesis
  proof (cases "match_macro name (c # cs)")
    case None with s show ?thesis by simp
  next
    case (Some a)
    obtain l rest where a: "a = (l, rest)" by (cases a)
    from matched_text[OF Some[unfolded a]] obtain ws where
      mt: "take (length (c # cs) - length rest) (c # cs) = BACKSLASH # name @ ws @ [LBRACE, l, RBRACE]"
      by blast
    show ?thesis
    proof (cases "map_of table l")
      case None with Some a mt s show ?thesis by simp
    next
      case (Some r)
      then have "(l, r) \<in> set table" by (rule map_of_SomeD)
      with assms(1) have "r \<noteq> []" by auto
      with Some \<open>match_macro name (c # cs) = Some a\<close> a s show ?thesis by simp
    qed
  qed
qed

lemma accent_outputs:
  "\<forall>(macro, table)\<in>set LATEX_ACCENT_MAP. \<forall>(l, r)\<in>set table. r \<noteq> [] \<and> DOLLAR \<notin> set r"
  by (simp add: LATEX_ACCENT_MAP_def)

lemma foldl_pass_no_dollar:
  "set ps \<subseteq> set LATEX_ACCENT_MAP \<Longrightarrow> DOLLAR \<notin> set s \<Longrightarrow> DOLLAR \<notin> set (foldl pass s ps)"
proof (induction ps arbitrary: s)
  case Nil then show ?case by simp
next
  case (Cons p ps)
  obtain m t where p: "p = (m, t)" by (cases p)
  with Cons.prems(1) accent_outputs have "\<forall>(l, r)\<in>set t. DOLLAR \<notin> set r" by fastforce
  with replace_macro_set[of "macroName m" t s] Cons.prems(2)
  have "DOLLAR \<notin> set (pass s p)" unfolding p pass_def by fastforce
  with Cons show ?case by simp
qed

lemma foldl_pass_nonempty:
  "set ps \<subseteq> set LATEX_ACCENT_MAP \<Longrightarrow> s \<noteq> [] \<Longrightarrow> foldl pass s ps \<noteq> []"
proof (induction ps arbitrary: s)
  case Nil then show ?case by simp
next
  case (Cons p ps)
  obtain m t where p: "p = (m, t)" by (cases p)
  with Cons.prems(1) accent_outputs have "\<forall>(l, r)\<in>set t. r \<noteq> []" by fastforce
  from replace_macro_nonempty[OF this Cons.prems(2)]
  have "pass s p \<noteq> []" unfolding p pass_def by simp
  with Cons show ?case by simp
qed

lemma normalize_no_dollar: "DOLLAR \<notin> set s \<Longrightarrow> DOLLAR \<notin> set (normalizeAccentsToUnicode s)"
  unfolding normalize_pass by (rule foldl_pass_no_dollar) simp

lemma normalize_nonempty: "s \<noteq> [] \<Longrightarrow> normalizeAccentsToUnicode s \<noteq> []"
  unfolding normalize_pass by (rule foldl_pass_nonempty) simp

section \<open>Tokens cover the normalized input\<close>

lemma block_body_SomeD:
  "block_body acc s = Some (x, rest) \<Longrightarrow> \<exists>y. x = acc @ y \<and> s = y @ [DOLLAR, DOLLAR] @ rest"
proof (induction acc s rule: block_body.induct)
  case (1 acc a b cs)
  show ?case
  proof (cases "a = DOLLAR \<and> b = DOLLAR")
    case True
    with 1 show ?thesis by auto
  next
    case False
    with "1.prems" have "block_body (acc @ [a]) (b # cs) = Some (x, rest)" by auto
    from "1.IH"[OF False this] obtain y where "x = (acc @ [a]) @ y" "b # cs = y @ [DOLLAR, DOLLAR] @ rest"
      by blast
    then show ?thesis by (intro exI[of _ "a # y"]) simp
  qed
qed simp_all

lemma inline_body_SomeD:
  "inline_body acc s = Some (x, rest) \<Longrightarrow> \<exists>y. x = acc @ y \<and> s = y @ DOLLAR # rest"
proof (induction acc s rule: inline_body.induct)
  case (2 acc c cs)
  show ?case
  proof (cases "c = DOLLAR")
    case True
    with 2 show ?thesis by auto
  next
    case False
    with "2.prems" have nl: "c \<noteq> NEWLINE" and b: "inline_body (acc @ [c]) cs = Some (x, rest)"
      by (auto split: if_splits)
    from "2.IH"[OF False nl b] obtain y where "x = (acc @ [c]) @ y" "cs = y @ DOLLAR # rest" by blast
    then show ?thesis by (intro exI[of _ "c # y"]) simp
  qed
qed simp

lemma match_block_SomeD:
  "match_block s = Some (x, rest) \<Longrightarrow> x \<noteq> [] \<and> s = [DOLLAR, DOLLAR] @ x @ [DOLLAR, DOLLAR] @ rest"
  by (cases s rule: match_block.cases) (auto split: if_splits dest!: block_body_SomeD)

lemma match_inline_SomeD:
  "match_inline s = Some (x, rest) \<Longrightarrow> x \<noteq> [] \<and> s = DOLLAR # x @ DOLLAR # rest"
  by (cases s rule: match_inline.cases) (auto split: if_splits dest!: inline_body_SomeD)

lemma match_at_SomeD:
  assumes "match_at s = Some (g1, g2, rest)"
  shows "\<exists>x. x \<noteq> [] \<and>
           ((g1 = Some x \<and> g2 = None \<and> s = [DOLLAR, DOLLAR] @ x @ [DOLLAR, DOLLAR] @ rest) \<or>
            (g1 = None \<and> g2 = Some x \<and> s = DOLLAR # x @ DOLLAR # rest))"
  using assms unfolding match_at_def
  by (auto split: option.splits dest!: match_block_SomeD match_inline_SomeD)

lemma regex_exec_SomeD:
  "regex_exec s = Some (pre, g1, g2, rest) \<Longrightarrow> \<exists>t. s = pre @ t \<and> match_at t = Some (g1, g2, rest)"
proof (induction s arbitrary: pre)
  case Nil then show ?case by simp
next
  case (Cons c cs)
  show ?case
  proof (cases "match_at (c # cs)")
    case None
    with Cons.prems obtain pre' where p: "pre = c # pre'" and r: "regex_exec cs = Some (pre', g1, g2, rest)"
      by (auto split: option.splits)
    from Cons.IH[OF r] p show ?thesis by auto
  next
    case (Some a)
    with Cons.prems show ?thesis by (auto split: option.splits)
  qed
qed

lemma tokenize_loop_None:
  "regex_exec s = None \<Longrightarrow>
   tokenize_loop s i acc = (if s \<noteq> [] then acc @ [RawText (str ''t-'' @ digit_string i) s] else acc)"
  by (subst tokenize_loop.simps) simp

lemma tokenize_loop_Some:
  "regex_exec s = Some (pre, g1, g2, rest) \<Longrightarrow>
   tokenize_loop s i acc =
     tokenize_loop rest ((if pre \<noteq> [] then i + 1 else i) + 1)
       ((if pre \<noteq> [] then acc @ [RawText (str ''t-'' @ digit_string i) pre] else acc) @
        [RawLatex (str ''m-'' @ digit_string (if pre \<noteq> [] then i + 1 else i))
           (case g1 of Some x \<Rightarrow> x | None \<Rightarrow> (case g2 of Some y \<Rightarrow> y | None \<Rightarrow> []))
           (case g1 of Some x \<Rightarrow> x \<noteq> [] | None \<Rightarrow> False)])"
  by (subst tokenize_loop.simps) (simp add: Let_def)

lemma tokenize_loop_acc: "tokenize_loop s i acc = acc @ tokenize_loop s i []"
proof (induction "length s" arbitrary: s i acc rule: less_induct)
  case less
  show ?case
  proof (cases "regex_exec s")
    case None
    then show ?thesis by (simp add: tokenize_loop_None)
  next
    case (Some a)
    obtain pre g1 g2 rest where a: "a = (pre, g1, g2, rest)" by (cases a)
    from Some a have e: "regex_exec s = Some (pre, g1, g2, rest)" by simp
    from regex_exec_shorter[OF e] have l: "length rest < length s" .
    show ?thesis
      by (subst (1 2) tokenize_loop_Some[OF e], subst less[OF l], subst (2) less[OF l]) simp
  qed
qed

lemma tokenize_loop_source:
  assumes "all_free s"
  shows "concat (map token_source (map (convert_raw L) (tokenize_loop s i acc))) =
         concat (map token_source (map (convert_raw L) acc)) @ s"
  using assms
proof (induction "length s" arbitrary: s i acc rule: less_induct)
  case less
  show ?case
  proof (cases "regex_exec s")
    case None
    then show ?thesis by (simp add: tokenize_loop_None convert_raw_def token_source_def)
  next
    case (Some a)
    obtain pre g1 g2 rest where a: "a = (pre, g1, g2, rest)" by (cases a)
    from Some a have e: "regex_exec s = Some (pre, g1, g2, rest)" by simp
    from regex_exec_shorter[OF e] have l: "length rest < length s" .
    from regex_exec_SomeD[OF e] obtain t where s: "s = pre @ t" and m: "match_at t = Some (g1, g2, rest)"
      by blast
    from match_at_SomeD[OF m] obtain x where x: "x \<noteq> []" and
      c: "(g1 = Some x \<and> g2 = None \<and> t = [DOLLAR, DOLLAR] @ x @ [DOLLAR, DOLLAR] @ rest) \<or>
          (g1 = None \<and> g2 = Some x \<and> t = DOLLAR # x @ DOLLAR # rest)" by blast
    have fx: "all_free x"
    proof -
      from c s have "s = (pre @ [DOLLAR, DOLLAR]) @ x @ ([DOLLAR, DOLLAR] @ rest) \<or>
                     s = (pre @ [DOLLAR]) @ x @ (DOLLAR # rest)" by auto
      with less.prems all_free_sublist[of "pre @ [DOLLAR, DOLLAR]" x "[DOLLAR, DOLLAR] @ rest"]
        all_free_sublist[of "pre @ [DOLLAR]" x "DOLLAR # rest"]
      show ?thesis by metis
    qed
    have fr: "all_free rest"
    proof -
      from c s have "s = (pre @ [DOLLAR, DOLLAR] @ x @ [DOLLAR, DOLLAR]) @ rest @ [] \<or>
                     s = (pre @ DOLLAR # x @ [DOLLAR]) @ rest @ []" by auto
      with less.prems all_free_sublist[of "pre @ [DOLLAR, DOLLAR] @ x @ [DOLLAR, DOLLAR]" rest "[]"]
        all_free_sublist[of "pre @ DOLLAR # x @ [DOLLAR]" rest "[]"]
      show ?thesis by metis
    qed
    from c show ?thesis
    proof
      assume b: "g1 = Some x \<and> g2 = None \<and> t = [DOLLAR, DOLLAR] @ x @ [DOLLAR, DOLLAR] @ rest"
      show ?thesis
        by (subst tokenize_loop_Some[OF e], subst less.hyps[OF l fr])
           (use b x s fx in \<open>simp add: convert_raw_def token_source_def delimiter_def
               convertLatexToken_def Let_def normalize_free_id\<close>)
    next
      assume b: "g1 = None \<and> g2 = Some x \<and> t = DOLLAR # x @ DOLLAR # rest"
      show ?thesis
        by (subst tokenize_loop_Some[OF e], subst less.hyps[OF l fr])
           (use b x s fx in \<open>simp add: convert_raw_def token_source_def delimiter_def
               convertLatexToken_def Let_def normalize_free_id\<close>)
    qed
  qed
qed

text \<open>
  C1: the token sequence is ordered and lossless. Concatenating, in order, the text of
  every text token and, for every math token, its source LaTeX between the delimiters
  that matched (\<open>$$\<close> in display mode, \<open>$\<close> otherwise) gives the accent-normalized
  input: every character of it is covered exactly once.
\<close>

theorem tokens_reconstruct_input:
  "concat (map token_source (tokenizeAndConvert L inp)) = normalizeAccentsToUnicode inp"
  using tokenize_loop_source[OF normalize_all_free, of L inp 0 "[]"]
  by (simp add: tokenizeAndConvert_def tokenize_def)

section \<open>Input without dollar signs\<close>

lemma match_at_hd: "match_at (c # cs) = Some r \<Longrightarrow> c = DOLLAR"
  by (cases r) (auto dest!: match_at_SomeD)

lemma match_at_Nil: "match_at [] = None"
  by (simp add: match_at_def)

lemma regex_exec_no_dollar: "DOLLAR \<notin> set s \<Longrightarrow> regex_exec s = None"
proof (induction s)
  case Nil then show ?case by simp
next
  case (Cons c cs)
  then have "match_at (c # cs) = None" by (cases "match_at (c # cs)") (auto dest: match_at_hd)
  with Cons show ?case by simp
qed

lemma regex_exec_skip:
  "DOLLAR \<notin> set pre \<Longrightarrow> match_at t = Some (g1, g2, rest) \<Longrightarrow>
   regex_exec (pre @ t) = Some (pre, g1, g2, rest)"
proof (induction pre)
  case Nil
  then show ?case by (cases t) (simp_all add: match_at_Nil)
next
  case (Cons c pre)
  then have "match_at (c # pre @ t) = None"
    by (cases "match_at (c # pre @ t)") (auto dest: match_at_hd)
  with Cons show ?case by simp
qed

text \<open>
  C4 (amended): for every non-empty input without \<open>$\<close>, segmentation and conversion
  give exactly one text token, with id \<open>t-0\<close>, whose text is the whole accent-normalized
  input; for the empty input they give no token at all (the guard of line 68).
\<close>

theorem no_dollar_single_text_token:
  assumes "DOLLAR \<notin> set input"
  shows "tokenizeAndConvert L input =
           (if input = [] then []
            else [TextToken (str ''t-0'') (normalizeAccentsToUnicode input)])"
proof -
  from assms have nd: "DOLLAR \<notin> set (normalizeAccentsToUnicode input)"
    by (rule normalize_no_dollar)
  have e: "regex_exec (normalizeAccentsToUnicode input) = None"
    using nd by (rule regex_exec_no_dollar)
  have z: "digit_string 0 = str ''0''" by (simp add: digit_string.simps str_def)
  show ?thesis
  proof (cases "input = []")
    case True
    then have "normalizeAccentsToUnicode input = []"
      by (simp add: normalizeAccentsToUnicode_def LATEX_ACCENT_MAP_def)
    with True show ?thesis
      by (simp add: tokenizeAndConvert_def tokenize_def tokenize_loop_None)
  next
    case False
    then have "normalizeAccentsToUnicode input \<noteq> []" by (rule normalize_nonempty)
    with False e z show ?thesis
      by (simp add: tokenizeAndConvert_def tokenize_def tokenize_loop_None convert_raw_def str_def)
  qed
qed

theorem no_dollar_witness:
  "tokenizeAndConvert sample_libs (str ''a b'') = [TextToken (str ''t-0'') (str ''a b'')]"
  using no_dollar_single_text_token[of "str ''a b''" sample_libs]
  by (simp add: str_def normalizeAccentsToUnicode_def LATEX_ACCENT_MAP_def macroName_def match_macro_def)

text \<open>The empty string contains no \<open>$\<close>, and it yields no token.\<close>

theorem empty_input_no_token: "tokenizeAndConvert sample_libs (str []) = []"
  by (simp add: tokenizeAndConvert_def tokenize_def tokenize_loop_None
      normalizeAccentsToUnicode_def LATEX_ACCENT_MAP_def str_def)

section \<open>Well-formed math spans\<close>

lemma block_body_find:
  "\<not> sublist [DOLLAR, DOLLAR] (y @ [DOLLAR]) \<Longrightarrow>
   block_body acc (y @ DOLLAR # DOLLAR # post) = Some (acc @ y, post)"
proof (induction y arbitrary: acc)
  case Nil
  then show ?case by simp
next
  case (Cons a ys)
  from Cons.prems have ns: "\<not> sublist [DOLLAR, DOLLAR] (ys @ [DOLLAR])"
    by (auto simp: sublist_Cons_right)
  from Cons.prems have np: "\<not> prefix [DOLLAR, DOLLAR] (a # ys @ [DOLLAR])"
    by (auto simp: sublist_Cons_right)
  obtain b cs where bc: "ys @ DOLLAR # DOLLAR # post = b # cs" by (cases ys) auto
  have hb: "hd (ys @ [DOLLAR]) = b" using bc by (cases ys) auto
  have "\<not> (a = DOLLAR \<and> b = DOLLAR)"
  proof
    assume "a = DOLLAR \<and> b = DOLLAR"
    with hb have "prefix [DOLLAR, DOLLAR] (a # ys @ [DOLLAR])" by (cases ys) auto
    with np show False by simp
  qed
  then have "block_body acc (a # b # cs) = block_body (acc @ [a]) (b # cs)" by auto
  with bc Cons.IH[OF ns, of "acc @ [a]"] show ?case by simp
qed

lemma inline_body_find:
  "DOLLAR \<notin> set y \<Longrightarrow> NEWLINE \<notin> set y \<Longrightarrow>
   inline_body acc (y @ DOLLAR # post) = Some (acc @ y, post)"
  by (induction y arbitrary: acc) auto

lemma match_at_block:
  assumes "X \<noteq> []" "\<not> sublist [DOLLAR, DOLLAR] (tl X @ [DOLLAR])"
  shows "match_at ([DOLLAR, DOLLAR] @ X @ [DOLLAR, DOLLAR] @ post) = Some (Some X, None, post)"
proof -
  from assms(1) obtain x xs where X: "X = x # xs" by (cases X) auto
  with assms(2) have "block_body [x] (xs @ DOLLAR # DOLLAR # post) = Some ([x] @ xs, post)"
    by (intro block_body_find) simp
  with X show ?thesis by (simp add: match_at_def)
qed

lemma match_at_inline:
  assumes "X \<noteq> []" "DOLLAR \<notin> set X" "NEWLINE \<notin> set X"
  shows "match_at (DOLLAR # X @ DOLLAR # post) = Some (None, Some X, post)"
proof -
  from assms(1) obtain x xs where X: "X = x # xs" by (cases X) auto
  with assms have i: "inline_body [x] (xs @ DOLLAR # post) = Some ([x] @ xs, post)"
    by (intro inline_body_find) auto
  have "match_block (DOLLAR # x # xs @ DOLLAR # post) = None"
    using X assms(2) by (cases xs) auto
  with X i assms show ?thesis by (simp add: match_at_def)
qed

lemma tokenize_loop_first_match:
  assumes "DOLLAR \<notin> set pre" "match_at t = Some (g1, g2, rest)"
  shows "tokenize_loop (pre @ t) i acc =
     acc @ (if pre = [] then [] else [RawText (str ''t-'' @ digit_string i) pre]) @
     RawLatex (str ''m-'' @ digit_string (if pre = [] then i else i + 1))
        (case g1 of Some x \<Rightarrow> x | None \<Rightarrow> (case g2 of Some y \<Rightarrow> y | None \<Rightarrow> []))
        (case g1 of Some x \<Rightarrow> x \<noteq> [] | None \<Rightarrow> False) #
     tokenize_loop rest (if pre = [] then i + 1 else i + 2) []"
proof -
  from regex_exec_skip[OF assms] have e: "regex_exec (pre @ t) = Some (pre, g1, g2, rest)" .
  show ?thesis
    by (subst tokenize_loop_Some[OF e], subst tokenize_loop_acc) simp
qed

text \<open>
  C2 (amended): let the scan stand anywhere in the input (\<open>tokenize_loop\<close> with the
  counter \<open>i\<close> and the tokens \<open>acc\<close> made so far; at the start of \<open>tokenize\<close> they
  are 0 and empty), let the text between that position and the span contain no \<open>$\<close>,
  and let \<open>X\<close> be non-empty. If \<open>X\<close> does not contain \<open>$$\<close> and does not end with
  \<open>$\<close>, the segmenter turns \<open>$$X$$\<close> into a math token with displayMode true and
  source LaTeX exactly \<open>X\<close> (nothing trimmed). If \<open>X\<close> contains neither a newline nor
  \<open>$\<close>, it turns \<open>$X$\<close> into a math token with displayMode false and source LaTeX
  exactly \<open>X\<close>. In both cases the token follows the text token of the text before it
  (if that text is not empty), and the scan goes on after the closing delimiter.
\<close>

theorem math_span_tokenized:
  assumes "DOLLAR \<notin> set pre" and "X \<noteq> []"
  shows "(\<not> sublist [DOLLAR, DOLLAR] X \<and> last X \<noteq> DOLLAR \<longrightarrow>
            tokenize_loop (pre @ [DOLLAR, DOLLAR] @ X @ [DOLLAR, DOLLAR] @ post) i acc =
              acc @ (if pre = [] then [] else [RawText (str ''t-'' @ digit_string i) pre]) @
              RawLatex (str ''m-'' @ digit_string (if pre = [] then i else i + 1)) X True #
              tokenize_loop post (if pre = [] then i + 1 else i + 2) []) \<and>
         (DOLLAR \<notin> set X \<and> NEWLINE \<notin> set X \<longrightarrow>
            tokenize_loop (pre @ [DOLLAR] @ X @ [DOLLAR] @ post) i acc =
              acc @ (if pre = [] then [] else [RawText (str ''t-'' @ digit_string i) pre]) @
              RawLatex (str ''m-'' @ digit_string (if pre = [] then i else i + 1)) X False #
              tokenize_loop post (if pre = [] then i + 1 else i + 2) [])"
proof (intro conjI impI)
  assume a: "\<not> sublist [DOLLAR, DOLLAR] X \<and> last X \<noteq> DOLLAR"
  have "\<not> sublist [DOLLAR, DOLLAR] (tl X @ [DOLLAR])"
  proof
    assume "sublist [DOLLAR, DOLLAR] (tl X @ [DOLLAR])"
    then consider "sublist [DOLLAR, DOLLAR] (tl X)" | "sublist [DOLLAR, DOLLAR] [DOLLAR]"
      | xs1 xs2 where "[DOLLAR, DOLLAR] = xs1 @ xs2" "suffix xs1 (tl X)" "prefix xs2 [DOLLAR]"
      by (auto simp: sublist_append)
    then show False
    proof cases
      case 1
      then have "sublist [DOLLAR, DOLLAR] X" using assms(2)
        by (cases X) (auto simp: sublist_Cons_right)
      with a show False by simp
    next
      case 2
      then show False by (auto simp: sublist_Cons_right)
    next
      case 3
      from 3(3) have "xs2 = [] \<or> xs2 = [DOLLAR]" by (cases xs2) auto
      then show False
      proof
        assume "xs2 = []"
        with 3 have "suffix [DOLLAR, DOLLAR] (tl X)" by simp
        then have "sublist [DOLLAR, DOLLAR] (tl X)" by (rule suffix_imp_sublist)
        then have "sublist [DOLLAR, DOLLAR] X" using assms(2)
          by (cases X) (auto simp: sublist_Cons_right)
        with a show False by simp
      next
        assume "xs2 = [DOLLAR]"
        with 3 have "suffix [DOLLAR] (tl X)" by simp
        then obtain u where "tl X = u @ [DOLLAR]" by (auto simp: suffix_def)
        with assms(2) have "last X = DOLLAR" by (cases X) auto
        with a show False by simp
      qed
    qed
  qed
  from match_at_block[OF assms(2) this, of post] tokenize_loop_first_match[OF assms(1)] assms(2)
  show "tokenize_loop (pre @ [DOLLAR, DOLLAR] @ X @ [DOLLAR, DOLLAR] @ post) i acc =
              acc @ (if pre = [] then [] else [RawText (str ''t-'' @ digit_string i) pre]) @
              RawLatex (str ''m-'' @ digit_string (if pre = [] then i else i + 1)) X True #
              tokenize_loop post (if pre = [] then i + 1 else i + 2) []"
    by fastforce
next
  assume a: "DOLLAR \<notin> set X \<and> NEWLINE \<notin> set X"
  then have "match_at (DOLLAR # X @ DOLLAR # post) = Some (None, Some X, post)"
    using assms(2) by (intro match_at_inline) auto
  from tokenize_loop_first_match[OF assms(1) this]
  show "tokenize_loop (pre @ [DOLLAR] @ X @ [DOLLAR] @ post) i acc =
              acc @ (if pre = [] then [] else [RawText (str ''t-'' @ digit_string i) pre]) @
              RawLatex (str ''m-'' @ digit_string (if pre = [] then i else i + 1)) X False #
              tokenize_loop post (if pre = [] then i + 1 else i + 2) []"
    by simp
qed

theorem math_span_tokenized_witness:
  "tokenize (str ''ab $$x+1$$ c'') =
     [RawText (str ''t-0'') (str ''ab ''), RawLatex (str ''m-1'') (str ''x+1'') True,
      RawText (str ''t-2'') (str '' c'')] \<and>
   tokenize (str ''ab $x+1$ c'') =
     [RawText (str ''t-0'') (str ''ab ''), RawLatex (str ''m-1'') (str ''x+1'') False,
      RawText (str ''t-2'') (str '' c'')]"
  using math_span_tokenized[of "str ''ab ''" "str ''x+1''" "str '' c''" 0 "[]"]
  by (simp add: tokenize_def str_def sublist_code prefix_code digit_string.simps tokenize_loop.simps
      match_at_def)

text \<open>
  The claim as stated fails: a well-formed span is not found when an earlier \<open>$\<close>
  pairs up with its opener (\<open>$a$$b$$\<close> has the block span \<open>$$b$$\<close>,
  \<open>$$a$b$ c$$\<close> has the inline span \<open>$b$\<close>), and a block content that ends with
  \<open>$\<close> loses its last character (\<open>$$a$$$\<close> with \<open>X = a$\<close>).
\<close>

theorem math_span_counterexample:
  "\<not> yields_math (tokenize (str ''$a$$b$$'')) (str ''b'') True \<and>
   \<not> yields_math (tokenize (str ''$$a$$$'')) (str ''a$'') True \<and>
   \<not> yields_math (tokenize (str ''$$a$b$ c$$'')) (str ''b'') False"
  by (simp add: yields_math_def tokenize_def tokenize_loop.simps match_at_def str_def digit_string.simps)

section \<open>Unterminated openers\<close>

lemma prepend_prepend: "prepend a (prepend b r) = prepend (a @ b) r"
  by (auto simp: prepend_def split: option.splits)

lemma regex_exec_Cons_None:
  "match_at (c # s) = None \<Longrightarrow> regex_exec (c # s) = prepend [c] (regex_exec s)"
  by (auto simp: prepend_def split: option.splits)

lemma regex_exec_plain:
  "DOLLAR \<notin> set a \<Longrightarrow> regex_exec (a @ b) = prepend a (regex_exec b)"
proof (induction a)
  case Nil
  then show ?case by (auto simp: prepend_def split: option.splits)
next
  case (Cons c a)
  then have "match_at (c # a @ b) = None"
    by (cases "match_at (c # a @ b)") (auto dest: match_at_hd)
  with Cons show ?case by (auto simp: prepend_def split: option.splits)
qed

lemma inline_body_fail:
  "DOLLAR \<notin> set mid \<Longrightarrow> rest = [] \<or> hd rest = NEWLINE \<Longrightarrow> inline_body acc (mid @ rest) = None"
proof (induction mid arbitrary: acc)
  case Nil
  then show ?case by (cases rest) auto
next
  case (Cons c mid)
  then show ?case by auto
qed

lemma match_inline_fail:
  assumes "DOLLAR \<notin> set mid" "rest = [] \<or> hd rest = NEWLINE"
  shows "match_inline (DOLLAR # mid @ rest) = None"
proof (cases mid)
  case Nil
  with assms(2) show ?thesis by (cases rest) auto
next
  case (Cons c cs)
  with assms inline_body_fail[of cs rest "[c]"] show ?thesis by auto
qed

lemma match_block_needs_closer:
  "match_block (a # b # s) = Some r \<Longrightarrow> sublist [DOLLAR, DOLLAR] s"
proof -
  assume m: "match_block (a # b # s) = Some r"
  obtain x rest where r: "r = (x, rest)" by (cases r)
  from match_block_SomeD[OF m[unfolded r]] have "s = x @ [DOLLAR, DOLLAR] @ rest" by simp
  then show ?thesis by (auto simp: sublist_def)
qed

lemma match_at_single_opener:
  assumes "DOLLAR \<notin> set mid" "rest = [] \<or> hd rest = NEWLINE"
  shows "match_at (DOLLAR # mid @ rest) = None"
proof -
  have "match_block (DOLLAR # mid @ rest) = None"
  proof (cases "mid @ rest")
    case Nil then show ?thesis by simp
  next
    case (Cons c cs)
    with assms have "c \<noteq> DOLLAR" by (cases mid) auto
    with Cons show ?thesis by (cases cs) auto
  qed
  with match_inline_fail[OF assms] show ?thesis by (simp add: match_at_def)
qed

lemma match_at_double_opener:
  assumes "DOLLAR \<notin> set mid" "\<not> sublist [DOLLAR, DOLLAR] rest"
  shows "match_at (DOLLAR # DOLLAR # mid @ rest) = None"
proof -
  have "\<not> sublist [DOLLAR, DOLLAR] (mid @ rest)"
  proof
    assume "sublist [DOLLAR, DOLLAR] (mid @ rest)"
    then consider "sublist [DOLLAR, DOLLAR] mid" | "sublist [DOLLAR, DOLLAR] rest"
      | xs1 xs2 where "[DOLLAR, DOLLAR] = xs1 @ xs2" "suffix xs1 mid" "prefix xs2 rest"
      by (auto simp: sublist_append)
    then show False
    proof cases
      case 1
      then have "DOLLAR \<in> set mid" by (auto dest: set_mono_sublist)
      with assms show False by simp
    next
      case 2 with assms show False by simp
    next
      case 3
      show False
      proof (cases xs1)
        case Nil
        with 3 have "prefix [DOLLAR, DOLLAR] rest" by simp
        then have "sublist [DOLLAR, DOLLAR] rest" by (rule prefix_imp_sublist)
        with assms show False by simp
      next
        case (Cons d ds)
        with 3(1) have "d = DOLLAR" by simp
        with Cons 3(2) have "DOLLAR \<in> set mid" by (auto simp: suffix_def)
        with assms show False by simp
      qed
    qed
  qed
  then have "match_block (DOLLAR # DOLLAR # mid @ rest) = None"
    by (cases "match_block (DOLLAR # DOLLAR # mid @ rest)") (auto dest: match_block_needs_closer)
  moreover have "match_inline (DOLLAR # DOLLAR # mid @ rest) = None" by simp
  ultimately show ?thesis by (simp add: match_at_def)
qed

lemma tokenize_loop_first_text:
  assumes "a \<noteq> []" "regex_exec (a @ rest) = prepend a (regex_exec rest)"
  shows "\<exists>x more. tokenize_loop (a @ rest) i acc =
            acc @ RawText (str ''t-'' @ digit_string i) x # more \<and> prefix a x"
proof (cases "regex_exec rest")
  case None
  with assms have "regex_exec (a @ rest) = None" by (simp add: prepend_def)
  from tokenize_loop_None[OF this, of i acc] assms(1)
  have "tokenize_loop (a @ rest) i acc = acc @ RawText (str ''t-'' @ digit_string i) (a @ rest) # []"
    by simp
  then show ?thesis by (intro exI[of _ "a @ rest"] exI[of _ "[]"]) simp
next
  case (Some r)
  obtain p g1 g2 r' where r: "r = (p, g1, g2, r')" by (cases r)
  with Some assms have e: "regex_exec (a @ rest) = Some (a @ p, g1, g2, r')"
    by (simp add: prepend_def)
  have "\<exists>more. tokenize_loop (a @ rest) i acc =
      acc @ RawText (str ''t-'' @ digit_string i) (a @ p) # more"
    by (subst tokenize_loop_Some[OF e], subst tokenize_loop_acc) (use assms(1) in simp)
  then show ?thesis by (intro exI[of _ "a @ p"]) auto
qed

text \<open>
  C3 (amended): let the scan stand anywhere in the input (\<open>tokenize_loop\<close> with the
  counter \<open>i\<close> and the tokens \<open>acc\<close> made so far; at the start of \<open>tokenize\<close> they
  are 0 and empty), let the text between that position and the opener contain no
  \<open>$\<close>, and let no \<open>$\<close> follow the opener before the next newline or the end of the
  input. Then a \<open>$\<close> opener gives no math token: the next token is a text token that
  begins with the text before the opener, the dollar sign and the text after it. The
  same holds for a \<open>$$\<close> opener when moreover no \<open>$$\<close> occurs later in the input.
\<close>

theorem unterminated_opener_stays_text:
  assumes "DOLLAR \<notin> set pre" and "DOLLAR \<notin> set mid" and "rest = [] \<or> hd rest = NEWLINE"
  shows "(\<exists>x more. tokenize_loop (pre @ [DOLLAR] @ mid @ rest) i acc =
              acc @ RawText (str ''t-'' @ digit_string i) x # more \<and>
            prefix (pre @ [DOLLAR] @ mid) x) \<and>
         (\<not> sublist [DOLLAR, DOLLAR] rest \<longrightarrow>
            (\<exists>x more. tokenize_loop (pre @ [DOLLAR, DOLLAR] @ mid @ rest) i acc =
              acc @ RawText (str ''t-'' @ digit_string i) x # more \<and>
               prefix (pre @ [DOLLAR, DOLLAR] @ mid) x))"
proof (intro conjI impI)
  have m: "match_at (DOLLAR # mid @ rest) = None"
    using assms(2,3) by (rule match_at_single_opener)
  have s: "regex_exec (DOLLAR # mid @ rest) = prepend (DOLLAR # mid) (regex_exec rest)"
    using regex_exec_Cons_None[OF m] regex_exec_plain[OF assms(2), of rest]
    by (simp add: prepend_prepend)
  have "regex_exec ((pre @ [DOLLAR] @ mid) @ rest) = prepend (pre @ [DOLLAR] @ mid) (regex_exec rest)"
    using regex_exec_plain[OF assms(1), of "DOLLAR # mid @ rest"] s by (simp add: prepend_prepend)
  from tokenize_loop_first_text[OF _ this, of i acc]
  show "\<exists>x more. tokenize_loop (pre @ [DOLLAR] @ mid @ rest) i acc =
              acc @ RawText (str ''t-'' @ digit_string i) x # more \<and>
            prefix (pre @ [DOLLAR] @ mid) x" by simp
  assume nc: "\<not> sublist [DOLLAR, DOLLAR] rest"
  have m2: "match_at (DOLLAR # DOLLAR # mid @ rest) = None"
    using assms(2) nc by (rule match_at_double_opener)
  have "regex_exec (DOLLAR # DOLLAR # mid @ rest) = prepend (DOLLAR # DOLLAR # mid) (regex_exec rest)"
    using regex_exec_Cons_None[OF m2] s by (simp add: prepend_prepend)
  then have "regex_exec ((pre @ [DOLLAR, DOLLAR] @ mid) @ rest) =
      prepend (pre @ [DOLLAR, DOLLAR] @ mid) (regex_exec rest)"
    using regex_exec_plain[OF assms(1), of "DOLLAR # DOLLAR # mid @ rest"]
    by (simp add: prepend_prepend)
  from tokenize_loop_first_text[OF _ this, of i acc]
  show "\<exists>x more. tokenize_loop (pre @ [DOLLAR, DOLLAR] @ mid @ rest) i acc =
              acc @ RawText (str ''t-'' @ digit_string i) x # more \<and>
            prefix (pre @ [DOLLAR, DOLLAR] @ mid) x" by simp
qed

theorem unterminated_opener_witness:
  "(\<exists>x more. tokenize (str ''a $x'' @ NEWLINE # str ''$y$'') = RawText (str ''t-0'') x # more \<and>
      prefix (str ''a $x'') x) \<and>
   (\<exists>x more. tokenize (str ''a $$x'' @ NEWLINE # str ''$y$'') = RawText (str ''t-0'') x # more \<and>
      prefix (str ''a $$x'') x)"
proof -
  have h1: "DOLLAR \<notin> set (str ''a '')" and h2: "DOLLAR \<notin> set (str ''x'')"
    and h3: "NEWLINE # str ''$y$'' = [] \<or> hd (NEWLINE # str ''$y$'') = NEWLINE"
    and h4: "\<not> sublist [DOLLAR, DOLLAR] (NEWLINE # str ''$y$'')"
    by (simp_all add: str_def sublist_code prefix_code)
  from unterminated_opener_stays_text[OF h1 h2 h3, of 0 "[]"] h4 show ?thesis
    by (simp add: tokenize_def digit_string.simps str_def)
qed

text \<open>
  The claim as stated fails for a \<open>$$\<close> opener with no \<open>$$\<close> closer that is
  followed by a single \<open>$\<close> on its line: in \<open>$$a$b\<close> the second dollar sign of
  the opener becomes the delimiter of the inline math token \<open>a\<close>.
\<close>

theorem unterminated_opener_counterexample:
  "\<not> sublist [DOLLAR, DOLLAR] (str ''a$b'') \<and>
   tokenize (str ''$$a$b'') =
     [RawText (str ''t-0'') (str ''$''), RawLatex (str ''m-1'') (str ''a'') False,
      RawText (str ''t-2'') (str ''b'')]"
  by (simp add: tokenize_def tokenize_loop.simps match_at_def str_def digit_string.simps
      sublist_code prefix_code)

section \<open>Placeholder substitution\<close>

lemma split_loop_nonempty: "split_loop sep piece s \<noteq> []"
  by (induction sep piece s rule: split_loop.induct) auto

lemma js_join_Cons: "xs \<noteq> [] \<Longrightarrow> js_join r (x # xs) = x @ r @ js_join r xs"
  by (cases xs) auto

lemma split_loop_piece:
  "js_join r (split_loop p piece s) = piece @ js_join r (split_loop p [] s)"
proof (induction "length s" arbitrary: s piece rule: less_induct)
  case less
  show ?case
  proof (cases s)
    case Nil
    then show ?thesis by simp
  next
    case (Cons c cs)
    show ?thesis
    proof (cases "p \<noteq> [] \<and> prefix p (c # cs)")
      case True
      with Cons show ?thesis by (simp add: js_join_Cons split_loop_nonempty)
    next
      case False
      have l: "length cs < length s" using Cons by simp
      from False have a: "split_loop p piece (c # cs) = split_loop p (piece @ [c]) cs"
        and b: "split_loop p [] (c # cs) = split_loop p [c] cs" by auto
      have "js_join r (split_loop p (piece @ [c]) cs) = (piece @ [c]) @ js_join r (split_loop p [] cs)"
        by (rule less[OF l])
      moreover have "js_join r (split_loop p [c] cs) = [c] @ js_join r (split_loop p [] cs)"
        by (rule less[OF l])
      ultimately show ?thesis unfolding Cons a b by simp
    qed
  qed
qed

lemma woven_Nil: "woven p r [] = []"
  by (simp add: woven_def)

lemma woven_match:
  "p \<noteq> [] \<Longrightarrow> prefix p (c # cs) \<Longrightarrow> woven p r (c # cs) = r @ woven p r (drop (length p) (c # cs))"
  by (simp add: woven_def js_join_Cons split_loop_nonempty)

lemma woven_step:
  "\<not> prefix p (c # cs) \<Longrightarrow> woven p r (c # cs) = c # woven p r cs"
  unfolding woven_def by (simp, subst split_loop_piece, simp)

lemma woven_prefix:
  assumes "p \<noteq> []" "r \<noteq> []" "hd r \<notin> set q" "q \<noteq> []" "prefix q (woven p r t)"
  shows "prefix q t \<and> \<not> prefix p t"
  using assms(3-5)
proof (induction q arbitrary: t)
  case Nil
  then show ?case by simp
next
  case (Cons a q)
  from Cons.prems(3) obtain c cs where t: "t = c # cs" by (cases t) (auto simp: woven_Nil)
  show ?case
  proof (cases "prefix p (c # cs)")
    case True
    from Cons.prems(3) t woven_match[OF assms(1) True, of r] assms(2)
    have "a = hd r" by (cases r) auto
    with Cons.prems(1) show ?thesis by simp
  next
    case False
    with Cons.prems(3) t have ac: "a = c" and pq: "prefix q (woven p r cs)"
      by (simp_all add: woven_step)
    have "prefix q cs"
    proof (cases "q = []")
      case True then show ?thesis by simp
    next
      case False
      with Cons.IH[of cs] Cons.prems(1) pq show ?thesis by simp
    qed
    with ac t False show ?thesis by simp
  qed
qed

lemma woven_no_occurrence:
  assumes "p \<noteq> []" "q \<noteq> []" "r \<noteq> []" "hd r \<notin> set q" "last r \<notin> set q" "\<not> sublist q r"
      and "q = p \<or> \<not> sublist q s"
  shows "\<not> sublist q (woven p r s)"
  using assms(7)
proof (induction "length s" arbitrary: s rule: less_induct)
  case less
  show ?case
  proof (cases s)
    case Nil
    with assms(2) show ?thesis by (simp add: woven_Nil)
  next
    case (Cons c cs)
    show ?thesis
    proof (cases "prefix p (c # cs)")
      case True
      let ?s' = "drop (length p) (c # cs)"
      have l: "length ?s' < length s" using assms(1) Cons by (cases p) auto
      have "suffix ?s' s" using Cons by (simp add: suffix_drop)
      then have "sublist q ?s' \<Longrightarrow> sublist q s"
        by (meson sublist_order.order_trans suffix_imp_sublist)
      with less.prems have "q = p \<or> \<not> sublist q ?s'" by blast
      from less.hyps[OF l this] have IH: "\<not> sublist q (woven p r ?s')" .
      have "\<not> sublist q (r @ woven p r ?s')"
      proof
        assume "sublist q (r @ woven p r ?s')"
        then consider "sublist q r" | "sublist q (woven p r ?s')"
          | xs1 xs2 where "q = xs1 @ xs2" "suffix xs1 r" "prefix xs2 (woven p r ?s')"
          by (auto simp: sublist_append)
        then show False
        proof cases
          case 1 with assms(6) show False by simp
        next
          case 2 with IH show False by simp
        next
          case 3
          show False
          proof (cases "xs1 = []")
            case True
            with 3 have "prefix q (woven p r ?s')" by simp
            then have "sublist q (woven p r ?s')" by (rule prefix_imp_sublist)
            with IH show False by simp
          next
            case False
            from 3(2) obtain u where "r = u @ xs1" by (auto simp: suffix_def)
            with False have "last r = last xs1" by simp
            with False 3(1) have "last r \<in> set q" by auto
            with assms(5) show False by simp
          qed
        qed
      qed
      with Cons woven_match[OF assms(1) True, of r] show ?thesis by simp
    next
      case False
      have l: "length cs < length s" using Cons by simp
      have "sublist q cs \<Longrightarrow> sublist q s" using Cons by (simp add: sublist_Cons_right)
      with less.prems have "q = p \<or> \<not> sublist q cs" by blast
      from less.hyps[OF l this] have IH: "\<not> sublist q (woven p r cs)" .
      have "\<not> prefix q (woven p r (c # cs))"
      proof
        assume "prefix q (woven p r (c # cs))"
        from woven_prefix[OF assms(1,3,4,2) this] have pq: "prefix q (c # cs)" and "\<not> prefix p (c # cs)"
          by simp_all
        from less.prems show False
        proof
          assume "q = p" with pq False show False by simp
        next
          assume "\<not> sublist q s"
          with pq Cons show False by (auto dest: prefix_imp_sublist)
        qed
      qed
      with IH False Cons assms(2) show ?thesis
        by (cases q) (auto simp: woven_step sublist_Cons_right)
    qed
  qed
qed

lemma mathPlaceholder_nonempty: "mathPlaceholder i \<noteq> []"
  by (simp add: mathPlaceholder_def str_def)

lemma substitute_math:
  "\<not> is_TextToken t \<Longrightarrow> substitute replacer out t = woven (mathPlaceholder (tok_id t)) (replacer t) out"
  by (cases t) (simp_all add: substitute_def woven_def js_split_def mathPlaceholder_nonempty)

lemma substitute_text: "is_TextToken t \<Longrightarrow> substitute replacer out t = out"
  by (cases t) (simp_all add: substitute_def)

lemma foldl_substitute_free:
  assumes ok: "replacer_ok replacer tokens"
      and t': "t' \<in> set tokens" "\<not> is_TextToken t'"
  shows "set ts \<subseteq> set tokens \<Longrightarrow>
         t' \<in> set ts \<or> \<not> sublist (mathPlaceholder (tok_id t')) out \<Longrightarrow>
         \<not> sublist (mathPlaceholder (tok_id t')) (foldl (substitute replacer) out ts)"
proof (induction ts arbitrary: out)
  case Nil
  then show ?case by simp
next
  case (Cons t ts)
  let ?q = "mathPlaceholder (tok_id t')"
  have "t' \<in> set ts \<or> \<not> sublist ?q (substitute replacer out t)"
  proof (cases "is_TextToken t")
    case True
    with t'(2) have "t' \<noteq> t" by auto
    with Cons.prems(2) True show ?thesis by (auto simp: substitute_text)
  next
    case False
    let ?p = "mathPlaceholder (tok_id t)" and ?r = "replacer t"
    from Cons.prems(1) have "t \<in> set tokens" by simp
    with ok t' False have r: "?r \<noteq> []" "hd ?r \<notin> set ?q" "last ?r \<notin> set ?q" "\<not> sublist ?q ?r"
      by (auto simp: replacer_ok_def list_all_iff)
    show ?thesis
    proof (cases "t' \<in> set ts")
      case True then show ?thesis by simp
    next
      case nin: False
      with Cons.prems(2) have "t' = t \<or> \<not> sublist ?q out" by auto
      then have "?q = ?p \<or> \<not> sublist ?q out" by auto
      from woven_no_occurrence[OF mathPlaceholder_nonempty mathPlaceholder_nonempty r this]
      show ?thesis using False by (simp add: substitute_math)
    qed
  qed
  with Cons.prems(1) have "\<not> sublist ?q (foldl (substitute replacer) (substitute replacer out t) ts)"
    by (intro Cons.IH) auto
  then show ?case by simp
qed

lemma woven_absent: "p \<noteq> [] \<Longrightarrow> \<not> sublist p s \<Longrightarrow> woven p r s = s"
proof (induction s)
  case Nil
  then show ?case by (simp add: woven_Nil)
next
  case (Cons c cs)
  from Cons.prems(2) have np: "\<not> prefix p (c # cs)" and ns: "\<not> sublist p cs"
    by (auto simp: sublist_Cons_right)
  with Cons show ?case by (simp add: woven_step)
qed

lemma woven_first:
  "p \<noteq> [] \<Longrightarrow> \<not> sublist p (a @ butlast p) \<Longrightarrow> woven p r (a @ p @ b) = a @ r @ woven p r b"
proof (induction a)
  case Nil
  from Nil(1) obtain c cs where pc: "p @ b = c # cs" by (cases p) auto
  have "prefix p (c # cs)" unfolding pc[symmetric] by simp
  moreover have "drop (length p) (c # cs) = b" unfolding pc[symmetric] by simp
  ultimately show ?case using woven_match[OF Nil(1), of c cs r] pc by simp
next
  case (Cons c a)
  have np: "\<not> prefix p (c # a @ p @ b)"
  proof
    assume pp: "prefix p (c # a @ p @ b)"
    have "prefix ((c # a) @ butlast p) (c # a @ p @ b)"
    proof -
      have "c # a @ p @ b = ((c # a) @ butlast p) @ (last p # b)"
        using Cons.prems(1) by simp
      then show ?thesis by (metis prefixI)
    qed
    moreover have "length p \<le> length ((c # a) @ butlast p)" by simp
    ultimately have "prefix p ((c # a) @ butlast p)" using pp
      by (metis prefix_length_prefix)
    then have "sublist p ((c # a) @ butlast p)" by (rule prefix_imp_sublist)
    with Cons.prems(2) show False by simp
  qed
  from Cons.prems(2) have "\<not> sublist p (a @ butlast p)" by (auto simp: sublist_Cons_right)
  from Cons.IH[OF Cons.prems(1) this] np show ?case by (simp add: woven_step)
qed

text \<open>
  C5 (amended): for every token sequence, markdown renderer and replacer function, the
  string returned by the weaver is the markdown-rendered HTML after one substitution
  step per token, in token order. The step of a text token \<open>u\<close> changes nothing. The
  step of a math token \<open>t\<close> with placeholder \<open>p\<close> leaves a string without \<open>p\<close>
  unchanged; in a string \<open>a @ p @ b\<close> where no occurrence of \<open>p\<close> begins inside \<open>a\<close>, it
  keeps \<open>a\<close>, puts the replacer's output in the place of \<open>p\<close> and goes on with \<open>b\<close>. So
  every occurrence of the placeholder in the string that the step receives, found from
  left to right and not overlapping an earlier one, is replaced by the replacer's
  output, and all other text is kept. If moreover the replacer's outputs for the math
  tokens of the sequence are non-empty, begin and end with a character that occurs in
  no placeholder of the sequence (such as \<open><\<close> and \<open>>\<close>) and contain no placeholder of
  the sequence, the returned string contains no occurrence of any math token's
  placeholder.
\<close>

theorem weave_replaces_placeholders:
  assumes "\<not> is_TextToken t" and "p = mathPlaceholder (tok_id t)" and "is_TextToken u"
  shows "renderMarkdownWithPlaceholders marked_parse tokens replacer =
           foldl (substitute replacer) (marked_parse (weaver_combined tokens)) tokens \<and>
         substitute replacer s u = s \<and>
         (\<not> sublist p s \<longrightarrow> substitute replacer s t = s) \<and>
         (\<not> sublist p (a @ butlast p) \<longrightarrow>
            substitute replacer (a @ p @ b) t = a @ replacer t @ substitute replacer b t) \<and>
         (replacer_ok replacer tokens \<longrightarrow>
            placeholder_free tokens (renderMarkdownWithPlaceholders marked_parse tokens replacer))"
proof (intro conjI impI)
  show "renderMarkdownWithPlaceholders marked_parse tokens replacer =
           foldl (substitute replacer) (marked_parse (weaver_combined tokens)) tokens"
    by (simp add: renderMarkdownWithPlaceholders_def)
  show "substitute replacer s u = s" using assms(3) by (rule substitute_text)
  have pn: "p \<noteq> []" using assms(2) by (simp add: mathPlaceholder_nonempty)
  have st: "\<And>x. substitute replacer x t = woven p (replacer t) x"
    using assms(1,2) by (simp add: substitute_math)
  show "substitute replacer s t = s" if "\<not> sublist p s"
    using woven_absent[OF pn that] by (simp add: st)
  show "substitute replacer (a @ p @ b) t = a @ replacer t @ substitute replacer b t"
    if "\<not> sublist p (a @ butlast p)"
    using woven_first[OF pn that] by (simp add: st)
  show "placeholder_free tokens (renderMarkdownWithPlaceholders marked_parse tokens replacer)"
    if ok: "replacer_ok replacer tokens"
    unfolding placeholder_free_def list_all_iff
  proof
    fix t' assume t': "t' \<in> set tokens"
    show "is_TextToken t' \<or>
        \<not> sublist (mathPlaceholder (tok_id t'))
            (renderMarkdownWithPlaceholders marked_parse tokens replacer)"
    proof (cases "is_TextToken t'")
      case False
      from foldl_substitute_free[OF ok t' False, of tokens] t'
      show ?thesis by (simp add: renderMarkdownWithPlaceholders_def)
    next
      case True
      then show ?thesis by simp
    qed
  qed
qed

theorem weave_replaces_placeholders_witness:
  "substitute preview_replacer (str ''<p>a</p>'') sample_text = str ''<p>a</p>'' \<and>
   substitute preview_replacer (str ''<p>a</p>'') sample_math = str ''<p>a</p>'' \<and>
   substitute preview_replacer (str ''<p>a '' @ str ''MATHPHm-1PHMATH'' @ str ''</p>'') sample_math =
     str ''<p>a '' @ preview_replacer sample_math @ substitute preview_replacer (str ''</p>'') sample_math \<and>
   placeholder_free sample_tokens
     (renderMarkdownWithPlaceholders paragraph_html sample_tokens preview_replacer)"
proof -
  have h1: "\<not> is_TextToken sample_math" and h3: "is_TextToken sample_text"
    and h2: "str ''MATHPHm-1PHMATH'' = mathPlaceholder (tok_id sample_math)"
    by (simp_all add: sample_math_def sample_text_def mathPlaceholder_def str_def)
  have ok: "replacer_ok preview_replacer sample_tokens"
    by (simp add: replacer_ok_def sample_tokens_def sample_text_def sample_math_def
        preview_replacer_def mathPlaceholder_def
        str_def sublist_code prefix_code)
  have a1: "\<not> sublist (str ''MATHPHm-1PHMATH'') (str ''<p>a</p>'')"
    and a2: "\<not> sublist (str ''MATHPHm-1PHMATH'') (str ''<p>a '' @ butlast (str ''MATHPHm-1PHMATH''))"
    by (simp_all add: str_def sublist_code prefix_code)
  from weave_replaces_placeholders[OF h1 h2 h3, of paragraph_html sample_tokens preview_replacer
      "str ''<p>a</p>''" "str ''<p>a ''" "str ''</p>''"] ok a1 a2
  show ?thesis by blast
qed

text \<open>
  The claim as stated fails in two ways. When a replacer output itself contains a
  placeholder, it is inserted by the very substitution that removes the placeholder:
  the KaTeX HTML of the formula \<open>text{MATHPHm-0PHMATH}\<close> carries that text. And an
  occurrence in the rendered HTML is not replaced when an earlier step has taken a
  part of it: in the HTML of \<open>$a$ $b$ MATHPHm-0PHMATHPHm-2PHMATH\<close> the placeholder of
  \<open>m-2\<close> occurs twice, the second time beginning inside an occurrence of the
  placeholder of \<open>m-0\<close>; the step of \<open>m-0\<close> removes its beginning, and \<open>PHm-2PHMATH\<close>
  stays in the output, although the replacer meets the condition above.
\<close>

theorem weave_placeholder_counterexample:
  "\<not> placeholder_free echo_tokens (buildPreviewHtmlFromTokens paragraph_html echo_tokens) \<and>
   replacer_ok preview_replacer overlap_tokens \<and>
   paragraph_html (weaver_combined overlap_tokens) =
     str ''<p>MATHPHm-0PHMATH MATHPHm-2PHMATH MATHPHm-0PHMATHPHm-2PHMATH</p>'' @ [NEWLINE] \<and>
   buildPreviewHtmlFromTokens paragraph_html overlap_tokens =
     str ''<p><span><i>a</i></span> <span><i>b</i></span> <span><i>a</i></span>PHm-2PHMATH</p>'' @ [NEWLINE]"
  by (simp add: placeholder_free_def replacer_ok_def echo_tokens_def overlap_tokens_def
      buildPreviewHtmlFromTokens_def preview_replacer_def
      renderMarkdownWithPlaceholders_def mathPlaceholder_def
      str_def paragraph_html_def weaver_combined_def weaver_piece_def substitute_def js_split_def
      sublist_code prefix_code)

section \<open>Document builder: unknown placeholders\<close>

lemma split_ph_loop_None:
  "ph_exec s = None \<Longrightarrow> split_ph_loop m s acc = (if s \<noteq> [] then acc @ [Inl s] else acc)"
  by (subst split_ph_loop.simps) simp

lemma split_ph_loop_Some:
  "ph_exec s = Some (pre, i, rest) \<Longrightarrow>
   split_ph_loop m s acc =
     split_ph_loop m rest
       ((if pre \<noteq> [] then acc @ [Inl pre] else acc) @
        (case m i of Some mt \<Rightarrow> [Inr mt] | None \<Rightarrow> []))"
  by (subst split_ph_loop.simps) simp

lemma split_ph_loop_acc: "split_ph_loop m s acc = acc @ split_ph_loop m s []"
proof (induction "length s" arbitrary: s acc rule: less_induct)
  case less
  show ?case
  proof (cases "ph_exec s")
    case None
    then show ?thesis by (simp add: split_ph_loop_None)
  next
    case (Some a)
    obtain pre i rest where a: "a = (pre, i, rest)" by (cases a)
    from Some a have e: "ph_exec s = Some (pre, i, rest)" by simp
    from ph_exec_shorter[OF e] have l: "length rest < length s" .
    show ?thesis
      by (subst (1 2) split_ph_loop_Some[OF e], subst less[OF l], subst (2) less[OF l]) simp
  qed
qed

lemma ph_matches_None: "ph_exec s = None \<Longrightarrow> ph_matches s = []"
  by (subst ph_matches.simps) simp

lemma ph_matches_Some:
  "ph_exec s = Some (pre, i, rest) \<Longrightarrow> ph_matches s = (pre, i) # ph_matches rest"
  by (subst ph_matches.simps) simp

lemma ph_tail_None: "ph_exec s = None \<Longrightarrow> ph_tail s = s"
  by (subst ph_tail.simps) simp

lemma ph_tail_Some: "ph_exec s = Some (pre, i, rest) \<Longrightarrow> ph_tail s = ph_tail rest"
  by (subst ph_tail.simps) simp

lemma ph_matches_cover:
  "s = concat (map (\<lambda>(pre, i). pre @ mathPlaceholder i) (ph_matches s)) @ ph_tail s"
proof (induction "length s" arbitrary: s rule: less_induct)
  case less
  show ?case
  proof (cases "ph_exec s")
    case None
    then show ?thesis by (simp add: ph_matches_None ph_tail_None)
  next
    case (Some a)
    obtain pre i rest where a: "a = (pre, i, rest)" by (cases a)
    from Some a have e: "ph_exec s = Some (pre, i, rest)" by simp
    from ph_exec_SomeD[OF e] have s: "s = pre @ mathPlaceholder i @ rest"
      by (simp add: mathPlaceholder_def)
    from less[OF ph_exec_shorter[OF e]]
    have "rest = concat (map (\<lambda>(pre, i). pre @ mathPlaceholder i) (ph_matches rest)) @ ph_tail rest" .
    then have "pre @ mathPlaceholder i @ rest =
        concat (map (\<lambda>(pre, i). pre @ mathPlaceholder i) ((pre, i) # ph_matches rest)) @ ph_tail rest"
      by simp
    then show ?thesis
      unfolding ph_matches_Some[OF e] ph_tail_Some[OF e] s[symmetric] .
  qed
qed

lemma splitInlineByMath_matches:
  "splitInlineByMath mathMap s =
     concat (map (\<lambda>(pre, i). text_part pre @ (case mathMap i of Some mt \<Rightarrow> [Inr mt] | None \<Rightarrow> []))
               (ph_matches s)) @
     text_part (ph_tail s)"
proof (induction "length s" arbitrary: s rule: less_induct)
  case less
  show ?case
  proof (cases "ph_exec s")
    case None
    then show ?thesis
      by (simp add: splitInlineByMath_def split_ph_loop_None ph_matches_None ph_tail_None
          text_part_def)
  next
    case (Some a)
    obtain pre i rest where a: "a = (pre, i, rest)" by (cases a)
    from Some a have e: "ph_exec s = Some (pre, i, rest)" by simp
    from less[OF ph_exec_shorter[OF e]]
    have IH: "split_ph_loop mathMap rest [] =
        concat (map (\<lambda>(pre, i). text_part pre @ (case mathMap i of Some mt \<Rightarrow> [Inr mt] | None \<Rightarrow> []))
                  (ph_matches rest)) @
        text_part (ph_tail rest)"
      by (simp add: splitInlineByMath_def)
    show ?thesis unfolding splitInlineByMath_def
      by (subst split_ph_loop_Some[OF e], subst split_ph_loop_acc, subst IH)
         (simp add: ph_matches_Some[OF e] ph_tail_Some[OF e] text_part_def)
  qed
qed

lemma ph_body_append:
  "ph_body acc x = Some (i, r) \<Longrightarrow> ph_body acc (x @ y) = Some (i, r @ y)"
proof (induction acc x rule: ph_body.induct)
  case (1 acc)
  then show ?case by simp
next
  case (2 acc c cs)
  have l6: "length (str ''PHMATH'') = 6" by (simp add: str_def)
  from ph_body_SomeD[OF "2.prems"] obtain y0 where "c # cs = y0 @ str ''PHMATH'' @ r" by blast
  then have "length (c # cs) = length (y0 @ str ''PHMATH'' @ r)" by simp
  then have len: "6 \<le> length (c # cs)" by (simp add: str_def)
  show ?case
  proof (cases "prefix (str ''PHMATH'') (c # cs)")
    case True
    then have "prefix (str ''PHMATH'') ((c # cs) @ y)" by (rule prefix_prefix)
    moreover have "drop 6 ((c # cs) @ y) = drop 6 (c # cs) @ y" using len by simp
    ultimately show ?thesis using True "2.prems" by (simp del: drop_Suc_Cons)
  next
    case False
    have "\<not> prefix (str ''PHMATH'') ((c # cs) @ y)"
    proof
      assume "prefix (str ''PHMATH'') ((c # cs) @ y)"
      moreover have "prefix (c # cs) ((c # cs) @ y)" by simp
      ultimately have "prefix (str ''PHMATH'') (c # cs)" using len l6
        by (metis prefix_length_prefix)
      with False show False by simp
    qed
    moreover from False "2.prems" have lt: "\<not> is_line_terminator c"
      and b: "ph_body (acc @ [c]) cs = Some (i, r)" by (auto split: if_splits)
    ultimately show ?thesis using "2.IH"[OF False lt b] by simp
  qed
qed

lemma match_ph_append:
  assumes "match_ph x = Some (i, r)"
  shows "match_ph (x @ y) = Some (i, r @ y)"
proof -
  from assms have p: "prefix (str ''MATHPH'') x" by (auto simp: match_ph_def split: if_splits)
  then have len: "6 \<le> length x" by (auto simp: prefix_def str_def)
  from assms p obtain c cs where d: "drop 6 x = c # cs" and lt: "\<not> is_line_terminator c"
    and b: "ph_body [c] cs = Some (i, r)"
    by (auto simp: match_ph_def split: list.splits if_splits)
  have "drop 6 (x @ y) = c # (cs @ y)" using d len by simp
  moreover have "prefix (str ''MATHPH'') (x @ y)" using p by (rule prefix_prefix)
  ultimately show ?thesis using lt ph_body_append[OF b, of y] by (simp add: match_ph_def)
qed

lemma ph_exec_match:
  "ph_exec s = Some (pre, i, rest) \<Longrightarrow> \<exists>t. s = pre @ t \<and> match_ph t = Some (i, rest)"
proof (induction s arbitrary: pre)
  case Nil then show ?case by simp
next
  case (Cons c cs)
  show ?case
  proof (cases "match_ph (c # cs)")
    case None
    with Cons.prems obtain pre' where p: "pre = c # pre'" and r: "ph_exec cs = Some (pre', i, rest)"
      by (auto split: option.splits)
    from Cons.IH[OF r] p show ?thesis by auto
  next
    case (Some a)
    with Cons.prems show ?thesis by (auto split: option.splits)
  qed
qed

lemma ph_exec_leftmost:
  "match_ph t = Some m \<Longrightarrow> \<exists>p i r. ph_exec (u @ t) = Some (p, i, r) \<and> length p \<le> length u"
proof (induction u)
  case Nil
  obtain i r where "m = (i, r)" by (cases m)
  with Nil show ?case by (cases t) (auto simp: match_ph_def str_def)
next
  case (Cons c u)
  from Cons.IH[OF Cons.prems] obtain p i r where
    e: "ph_exec (u @ t) = Some (p, i, r)" and l: "length p \<le> length u" by blast
  show ?case
  proof (cases "match_ph (c # u @ t)")
    case None
    with e l show ?thesis by simp
  next
    case (Some a)
    then show ?thesis by (cases a) simp
  qed
qed

lemma ph_exec_pre_None:
  assumes "ph_exec s = Some (pre, i, rest)"
  shows "ph_exec pre = None"
proof (rule ccontr)
  assume "ph_exec pre \<noteq> None"
  then obtain p' i' r' where e': "ph_exec pre = Some (p', i', r')" by auto
  from ph_exec_match[OF e'] obtain t where pt: "pre = p' @ t" and m: "match_ph t = Some (i', r')"
    by blast
  from m have tn: "t \<noteq> []" by (auto simp: match_ph_def str_def)
  from ph_exec_match[OF assms] obtain z where sz: "s = pre @ z" by blast
  from match_ph_append[OF m, of z] have "match_ph (t @ z) = Some (i', r' @ z)" .
  from ph_exec_leftmost[OF this, of p'] obtain p i2 r2 where
    "ph_exec (p' @ t @ z) = Some (p, i2, r2)" and "length p \<le> length p'" by blast
  with assms sz pt tn show False by simp
qed

lemma ph_matches_pre_None: "(pre, i) \<in> set (ph_matches s) \<Longrightarrow> ph_exec pre = None"
proof (induction "length s" arbitrary: s rule: less_induct)
  case less
  show ?case
  proof (cases "ph_exec s")
    case None
    with less.prems show ?thesis by (simp add: ph_matches_None)
  next
    case (Some a)
    obtain pre0 i0 rest where a: "a = (pre0, i0, rest)" by (cases a)
    from Some a have e: "ph_exec s = Some (pre0, i0, rest)" by simp
    from less.prems have "(pre, i) = (pre0, i0) \<or> (pre, i) \<in> set (ph_matches rest)"
      by (simp add: ph_matches_Some[OF e])
    then show ?thesis
      using ph_exec_pre_None[OF e] less.hyps[OF ph_exec_shorter[OF e]] by auto
  qed
qed

lemma ph_matches_id: "(pre, i) \<in> set (ph_matches s) \<Longrightarrow> i \<noteq> []"
proof (induction "length s" arbitrary: s rule: less_induct)
  case less
  show ?case
  proof (cases "ph_exec s")
    case None
    with less.prems show ?thesis by (simp add: ph_matches_None)
  next
    case (Some a)
    obtain pre0 i0 rest where a: "a = (pre0, i0, rest)" by (cases a)
    from Some a have e: "ph_exec s = Some (pre0, i0, rest)" by simp
    from less.prems have "(pre, i) = (pre0, i0) \<or> (pre, i) \<in> set (ph_matches rest)"
      by (simp add: ph_matches_Some[OF e])
    then show ?thesis
      using ph_exec_SomeD[OF e] less.hyps[OF ph_exec_shorter[OF e]] by auto
  qed
qed

lemma ph_tail_None_exec: "ph_exec (ph_tail s) = None"
proof (induction "length s" arbitrary: s rule: less_induct)
  case less
  show ?case
  proof (cases "ph_exec s")
    case None
    then show ?thesis by (simp add: ph_tail_None)
  next
    case (Some a)
    obtain pre i rest where a: "a = (pre, i, rest)" by (cases a)
    from Some a have e: "ph_exec s = Some (pre, i, rest)" by simp
    from less[OF ph_exec_shorter[OF e]] show ?thesis by (simp add: ph_tail_Some[OF e])
  qed
qed

lemma part_runs_matches:
  "concat (map (part_runs style)
     (concat (map (\<lambda>(pre, i). text_part pre @ (case mathMap i of Some mt \<Rightarrow> [Inr mt] | None \<Rightarrow> [])) ms) @
      text_part t)) =
   concat (map (\<lambda>(pre, i).
                  (if pre = [] then [] else emitStyledRuns pre style) @
                  (case mathMap i of Some mt \<Rightarrow> part_runs style (Inr mt) | None \<Rightarrow> []))
             ms) @
   (if t = [] then [] else emitStyledRuns t style)"
proof (induction ms)
  case Nil
  show ?case by (simp add: text_part_def part_runs_def)
next
  case (Cons m ms)
  obtain pre i where m: "m = (pre, i)" by (cases m)
  have "concat (map (part_runs style)
          (text_part pre @ (case mathMap i of Some mt \<Rightarrow> [Inr mt] | None \<Rightarrow> []))) =
        (if pre = [] then [] else emitStyledRuns pre style) @
        (case mathMap i of Some mt \<Rightarrow> part_runs style (Inr mt) | None \<Rightarrow> [])"
    by (simp add: text_part_def part_runs_def split: option.splits)
  with Cons.IH show ?case unfolding m by simp
qed

text \<open>
  C10: in the document builder, the placeholder pattern cuts the text \<open>s\<close> of a span
  into its successive matches, each with the text \<open>pre\<close> skipped before it and its
  captured id \<open>i\<close>, and a tail; no id is empty, and neither a skipped text nor the tail
  holds a match. \<^verbatim>\<open>splitInlineByMath\<close> gives, match by match, the skipped text when it
  is not empty and then the math token of the id when the map of math tokens has one,
  and at the end the tail when it is not empty. A match whose id is not the id of a
  math token contributes nothing: the matched substring \<open>MATHPH<id>PHMATH\<close> is dropped,
  wherever it stands in the span and whatever matches come before or after it. The
  runs of a plain text span (a text token whose re-lexing gives one text node with the
  text \<open>s\<close>) are those of these pieces: styled text runs for a skipped text and for the
  tail, the runs of the formula for the id of a math token, and no run for any other
  id.
\<close>

theorem unknown_placeholder_dropped:
  "s = concat (map (\<lambda>(pre, i). pre @ mathPlaceholder i) (ph_matches s)) @ ph_tail s \<and>
   list_all (\<lambda>(pre, i). i \<noteq> [] \<and> ph_exec pre = None) (ph_matches s) \<and>
   ph_exec (ph_tail s) = None \<and>
   splitInlineByMath mathMap s =
     concat (map (\<lambda>(pre, i). text_part pre @ (case mathMap i of Some mt \<Rightarrow> [Inr mt] | None \<Rightarrow> []))
               (ph_matches s)) @
     text_part (ph_tail s) \<and>
   (md_type it = ''text'' \<and> inlineTokensFromText M (md_text it) = [sub] \<and>
    md_type sub = ''text'' \<and> md_text sub = s \<longrightarrow>
    inlineTokenRuns (Suc fuel) M mathMap it style =
      Some (concat (map (\<lambda>(pre, i).
                           (if pre = [] then [] else emitStyledRuns pre style) @
                           (case mathMap i of Some mt \<Rightarrow> part_runs style (Inr mt) | None \<Rightarrow> []))
                      (ph_matches s)) @
            (if ph_tail s = [] then [] else emitStyledRuns (ph_tail s) style)))"
proof -
  have ids: "list_all (\<lambda>(pre, i). i \<noteq> [] \<and> ph_exec pre = None) (ph_matches s)"
    unfolding list_all_iff using ph_matches_pre_None ph_matches_id by blast
  have sp: "splitInlineByMath mathMap s =
     concat (map (\<lambda>(pre, i). text_part pre @ (case mathMap i of Some mt \<Rightarrow> [Inr mt] | None \<Rightarrow> []))
               (ph_matches s)) @
     text_part (ph_tail s)"
    by (rule splitInlineByMath_matches)
  have runs: "concat (map (part_runs style) (splitInlineByMath mathMap s)) =
      concat (map (\<lambda>(pre, i).
                           (if pre = [] then [] else emitStyledRuns pre style) @
                           (case mathMap i of Some mt \<Rightarrow> part_runs style (Inr mt) | None \<Rightarrow> []))
                      (ph_matches s)) @
            (if ph_tail s = [] then [] else emitStyledRuns (ph_tail s) style)"
    unfolding sp by (rule part_runs_matches)
  show ?thesis using ph_matches_cover[of s] ids ph_tail_None_exec[of s] sp runs by simp
qed

theorem unknown_placeholder_witness:
  "ph_matches (str ''MATHPHm-0PHMATH a MATHPHzzPHMATH b'') =
     [([], str ''m-0''), (str '' a '', str ''zz'')] \<and>
   ph_tail (str ''MATHPHm-0PHMATH a MATHPHzzPHMATH b'') = str '' b'' \<and>
   known_map (str ''m-0'') = Some known_token \<and> known_map (str ''zz'') = None \<and>
   splitInlineByMath known_map (str ''MATHPHm-0PHMATH a MATHPHzzPHMATH b'') =
     [Inr known_token, Inl (str '' a ''), Inl (str '' b'')] \<and>
   inlineTokenRuns (Suc 0) plain_marked known_map
       (text_node (str ''MATHPHm-0PHMATH a MATHPHzzPHMATH b'')) no_style =
     Some [MathRun (omml known_token), TextRun (str '' a '') False False,
           TextRun (str '' b'') False False]"
proof -
  let ?s = "str ''MATHPHm-0PHMATH a MATHPHzzPHMATH b''"
  have m: "ph_matches ?s = [([], str ''m-0''), (str '' a '', str ''zz'')]"
    by (simp add: ph_matches.simps str_def match_ph_def is_line_terminator_def)
  have t: "ph_tail ?s = str '' b''"
    by (simp add: ph_tail.simps str_def match_ph_def is_line_terminator_def)
  have k: "known_map (str ''m-0'') = Some known_token" "known_map (str ''zz'') = None"
    by (simp_all add: known_map_def mathMap_of_def known_token_def str_def)
  have h: "md_type (text_node ?s) = ''text'' \<and>
      inlineTokensFromText plain_marked (md_text (text_node ?s)) = [text_node ?s] \<and>
      md_type (text_node ?s) = ''text'' \<and> md_text (text_node ?s) = ?s"
    by (simp add: inlineTokensFromText_def plain_marked_def text_node_def)
  have p: "part_runs no_style (Inr known_token) = [MathRun (omml known_token)]"
    by (simp add: part_runs_def known_token_def isOmmlPlain_def structure_at_def
        word_then_boundary_def is_word_def str_def)
  have e: "emitStyledRuns (str '' a '') no_style = [TextRun (str '' a '') False False]"
      "emitStyledRuns (str '' b'') no_style = [TextRun (str '' b'') False False]"
    by (simp_all add: emitStyledRuns_def no_style_def str_def)
  have n: "str '' a '' \<noteq> []" "str '' b'' \<noteq> []" by (simp_all add: str_def)
  note T = unknown_placeholder_dropped[of ?s known_map "text_node ?s" plain_marked "text_node ?s"
      0 no_style]
  from T have sp: "splitInlineByMath known_map ?s =
      concat (map (\<lambda>(pre, i). text_part pre @
                     (case known_map i of Some mt \<Rightarrow> [Inr mt] | None \<Rightarrow> []))
                (ph_matches ?s)) @
      text_part (ph_tail ?s)" by blast
  from T h have rn: "inlineTokenRuns (Suc 0) plain_marked known_map (text_node ?s) no_style =
      Some (concat (map (\<lambda>(pre, i).
                           (if pre = [] then [] else emitStyledRuns pre no_style) @
                           (case known_map i of Some mt \<Rightarrow> part_runs no_style (Inr mt) | None \<Rightarrow> []))
                      (ph_matches ?s)) @
            (if ph_tail ?s = [] then [] else emitStyledRuns (ph_tail ?s) no_style))" by blast
  show ?thesis unfolding sp rn unfolding m t by (simp add: k p e n text_part_def)
qed


section \<open>Document builder: lists\<close>







section \<open>Document builder: style across a math boundary\<close>

lemma bold_input_tokens:
  "tokenizeAndConvert L (str ''**x=$1$ y**'') =
     [TextToken (str ''t-0'') (str ''**x=''),
      MathToken (str ''m-1'') (str ''1'') False (katex_renderToString L (str ''1'') False)
        (temml_renderToString L (str ''1'') False)
        (mml2omml L (temml_renderToString L (str ''1'') False)),
      TextToken (str ''t-2'') (str '' y**'')]"
  by (simp add: tokenizeAndConvert_def normalizeAccentsToUnicode_def LATEX_ACCENT_MAP_def
      macroName_def match_macro_def str_def tokenize_def tokenize_loop.simps match_at_def
      digit_string.simps convert_raw_def convertLatexToken_def Let_def)

lemma bold_input_combined:
  "docx_combined (tokenizeAndConvert L (str ''**x=$1$ y**'')) = str ''**x=MATHPHm-1PHMATH y**''"
  unfolding bold_input_tokens
  by (simp add: docx_combined_def docx_piece_def mathPlaceholder_def str_def)

lemma emit_loop_no_star:
  "STAR \<notin> set t \<Longrightarrow>
   emit_loop t buf b i out = (if buf @ t \<noteq> [] then out @ [TextRun (buf @ t) b i] else out)"
  by (induction t buf b i out rule: emit_loop.induct) auto

lemma emitStyledRuns_no_star:
  "STAR \<notin> set t \<Longrightarrow> t \<noteq> [] \<Longrightarrow> emitStyledRuns t st = [TextRun t (bold st) (italics st)]"
  by (simp add: emitStyledRuns_def emit_loop_no_star)

lemma bold_input_split:
  "splitInlineByMath
     (mathMap_of [TextToken (str ''t-0'') (str ''**x=''),
                  MathToken (str ''m-1'') (str ''1'') False k m o1,
                  TextToken (str ''t-2'') (str '' y**'')])
     (str ''x=MATHPHm-1PHMATH y'') =
   [Inl (str ''x=''), Inr (MathToken (str ''m-1'') (str ''1'') False k m o1), Inl (str '' y'')]"
  by (simp add: splitInlineByMath_def split_ph_loop.simps mathMap_of_def str_def match_ph_def
      is_line_terminator_def)

text \<open>
  C7: for the input \<open>**x=$1$ y**\<close> the document builder emits one paragraph with
  exactly three runs: the bold text run \<open>x=\<close>, one run for the formula (its
  extracted text, bold, when the Office markup is plain, the math object otherwise) and
  the bold text run \<open> y\<close>. The bold flag set at the strong node reaches both text runs
  around the placeholder. The behaviour of the external libraries on this input is a
  hypothesis: the lexer returns one paragraph holding a strong node around one text
  node, re-lexing that text gives one text node, and the Office markup of the formula,
  when plain, holds a non-empty text without \<open>*\<close>.
\<close>

theorem bold_carried_across_math:
  assumes lx: "lexer M (str ''**x=MATHPHm-1PHMATH y**'') = [para]"
      and pa: "md_type para = ''paragraph''" "md_tokens para = Some [strong]"
      and sg: "md_type strong = ''strong''" "md_tokens strong = Some [inner]"
      and inn: "md_type inner = ''text''" "md_text inner = str ''x=MATHPHm-1PHMATH y''"
      and rl: "inlineTokensFromText M (str ''x=MATHPHm-1PHMATH y'') = [sub]"
              "md_type sub = ''text''" "md_text sub = str ''x=MATHPHm-1PHMATH y''"
      and om: "o1 = mml2omml L (temml_renderToString L (str ''1'') False)"
      and pl: "isOmmlPlain o1 \<longrightarrow> extractTextFromOmml o1 \<noteq> [] \<and> STAR \<notin> set (extractTextFromOmml o1)"
  shows "generateDocx (Suc (Suc fuel)) M (tokenizeAndConvert L (str ''**x=$1$ y**'')) =
           Some [Paragraph
                   [TextRun (str ''x='') True False,
                    (if isOmmlPlain o1 then TextRun (extractTextFromOmml o1) True False
                     else MathRun o1),
                    TextRun (str '' y'') True False]
                   None None False]"
proof -
  let ?st = "no_style\<lparr>bold := True\<rparr>"
  let ?mt = "MathToken (str ''m-1'') (str ''1'') False (katex_renderToString L (str ''1'') False)
        (temml_renderToString L (str ''1'') False) o1"
  let ?mm = "mathMap_of (tokenizeAndConvert L (str ''**x=$1$ y**''))"
  have st: "bold ?st = True" "italics ?st = False" by (simp_all add: no_style_def)
  have a: "part_runs ?st (Inl (str ''x='')) = [TextRun (str ''x='') True False]"
    by (simp add: part_runs_def emitStyledRuns_def no_style_def str_def)
  have c: "part_runs ?st (Inl (str '' y'')) = [TextRun (str '' y'') True False]"
    by (simp add: part_runs_def emitStyledRuns_def no_style_def str_def)
  have b: "part_runs ?st (Inr ?mt) =
      [if isOmmlPlain o1 then TextRun (extractTextFromOmml o1) True False else MathRun o1]"
    using pl by (simp add: part_runs_def Let_def emitStyledRuns_no_star st)
  have sp: "splitInlineByMath ?mm (str ''x=MATHPHm-1PHMATH y'') =
      [Inl (str ''x=''), Inr ?mt, Inl (str '' y'')]"
    unfolding bold_input_tokens om[symmetric] by (rule bold_input_split)
  have t: "inlineTokenRuns (Suc fuel) M ?mm inner ?st =
      Some [TextRun (str ''x='') True False,
            (if isOmmlPlain o1 then TextRun (extractTextFromOmml o1) True False else MathRun o1),
            TextRun (str '' y'') True False]"
    using inn rl sp a b c by simp
  have s: "inlineTokenRuns (Suc (Suc fuel)) M ?mm strong no_style =
      Some [TextRun (str ''x='') True False,
            (if isOmmlPlain o1 then TextRun (extractTextFromOmml o1) True False else MathRun o1),
            TextRun (str '' y'') True False]"
    using t sg by simp
  show ?thesis
    unfolding generateDocx_def bold_input_combined Let_def lx
    using s pa by (simp add: blockParas_def block_inline_def)
qed

theorem bold_carried_across_math_witness:
  "generateDocx (Suc (Suc 0)) bold_marked (tokenizeAndConvert omml_libs (str ''**x=$1$ y**'')) =
     Some [Paragraph
             [TextRun (str ''x='') True False, TextRun (str ''1'') True False,
              TextRun (str '' y'') True False]
             None None False]"
proof -
  let ?o = "str ''<m:oMath><m:r><m:t>1</m:t></m:r></m:oMath>''"
  let ?inner = "text_node (str ''x=MATHPHm-1PHMATH y'')"
  let ?strong = "MdTok ''strong'' (str ''x=MATHPHm-1PHMATH y'') (Some [?inner]) [] False 0"
  let ?para = "MdTok ''paragraph'' (str ''**x=MATHPHm-1PHMATH y**'') (Some [?strong]) [] False 0"
  have lx: "lexer bold_marked (str ''**x=MATHPHm-1PHMATH y**'') = [?para]"
    by (simp add: bold_marked_def)
  have pa: "md_type ?para = ''paragraph''" "md_tokens ?para = Some [?strong]" by simp_all
  have sg: "md_type ?strong = ''strong''" "md_tokens ?strong = Some [?inner]" by simp_all
  have inn: "md_type ?inner = ''text''" "md_text ?inner = str ''x=MATHPHm-1PHMATH y''"
    by (simp_all add: text_node_def)
  have rl: "inlineTokensFromText bold_marked (str ''x=MATHPHm-1PHMATH y'') = [?inner]"
    by (simp add: bold_marked_def inlineTokensFromText_def)
  have om: "?o = mml2omml omml_libs (temml_renderToString omml_libs (str ''1'') False)"
    by (simp add: omml_libs_def str_def)
  have ex: "extractTextFromOmml ?o = str ''1''"
    by (simp add: extractTextFromOmml_def match_mt_def str_def)
  have ip: "isOmmlPlain ?o"
    by (simp add: isOmmlPlain_def structure_at_def word_then_boundary_def is_word_def str_def)
  have pl: "isOmmlPlain ?o \<longrightarrow> extractTextFromOmml ?o \<noteq> [] \<and> STAR \<notin> set (extractTextFromOmml ?o)"
    unfolding ex by (simp add: str_def)
  from bold_carried_across_math[OF lx pa sg inn rl inn om pl, of 0] ip ex show ?thesis by simp
qed

section \<open>The combined placeholder string\<close>

lemma docx_piece_weaver_piece: "docx_piece = weaver_piece"
proof (rule ext)
  fix t show "docx_piece t = weaver_piece t"
    by (cases t) (simp_all add: docx_piece_def weaver_piece_def Let_def)
qed

text \<open>
  C6: for every token sequence, the combined placeholder string that the document
  builder derives is the one that the markdown weaver derives: the same placeholder
  per math token id, block placeholders between blank lines, inline ones bare, text
  tokens verbatim, joined in token order.
\<close>

theorem combined_docx_eq_weaver: "docx_combined tokens = weaver_combined tokens"
  by (simp add: docx_combined_def weaver_combined_def docx_piece_weaver_piece)

end
